theory Spec2Isabelle
  imports Main "HOL-Library.Word"
begin

section \<open>Bytes, errors and the event record\<close>

text \<open>
  Go's \<^verbatim>\<open>byte\<close> is an 8-bit value and so is \<^typ>\<open>char\<close>; a Go \<^verbatim>\<open>string\<close> and the
  contents of a \<^verbatim>\<open>[]byte\<close> are both byte sequences, here \<^typ>\<open>char list\<close>. A
  \<^verbatim>\<open>[]byte\<close> can also be \<^verbatim>\<open>nil\<close>, which \<^verbatim>\<open>IsZero\<close> observes: a slice is a
  \<^typ>\<open>char list option\<close>, with \<^term>\<open>None\<close> for \<^verbatim>\<open>nil\<close>.
\<close>

type_synonym byte = char

abbreviation LF :: byte where "LF \<equiv> CHR 0x0A"
abbreviation CR :: byte where "CR \<equiv> CHR 0x0D"

text \<open>
  The errors a caller of this package can see: the end of the stream (\<^verbatim>\<open>io.EOF\<close>), any
  other failure of the underlying reader or writer, and the package's own
  \<^verbatim>\<open>errEventDataTooBig\<close>.
\<close>

datatype error = EOF | IOFailure | errEventDataTooBig

text \<open>\<^verbatim>\<open>const MaxEventDataSize = 1024 * 1024 * 4\<close>\<close>

definition MaxEventDataSize :: nat where
  "MaxEventDataSize = 1024 * 1024 * 4"

text \<open>
  \<^verbatim>\<open>type Event struct { Event string; Data []byte; ID string; Retry int }\<close>.
  Go's \<^verbatim>\<open>int\<close> is taken to be 64 bits wide, as on every 64-bit platform.
\<close>

record Event =
  Event :: string
  Data :: "byte list option"
  ID :: string
  Retry :: "64 word"

definition IsZero :: "Event \<Rightarrow> bool" where
  "IsZero e \<longleftrightarrow> Event e = [] \<and> Data e = None \<and> ID e = [] \<and> Retry e = 0"

text \<open>\<^verbatim>\<open>len\<close> of a slice: \<^verbatim>\<open>nil\<close> has length 0.\<close>

definition len :: "byte list option \<Rightarrow> nat" where
  "len d = (case d of None \<Rightarrow> 0 | Some xs \<Rightarrow> length xs)"

text \<open>The bytes of a slice; a \<^verbatim>\<open>nil\<close> slice has none.\<close>

definition bytes :: "byte list option \<Rightarrow> byte list" where
  "bytes d = (case d of None \<Rightarrow> [] | Some xs \<Rightarrow> xs)"

text \<open>
  \<^verbatim>\<open>append(s, xs...)\<close>: appending nothing to a \<^verbatim>\<open>nil\<close> slice leaves it \<^verbatim>\<open>nil\<close>.
\<close>

definition append_slice :: "byte list option \<Rightarrow> byte list \<Rightarrow> byte list option" where
  "append_slice d xs = (case d of None \<Rightarrow> (if xs = [] then None else Some xs) | Some ys \<Rightarrow> Some (ys @ xs))"

text \<open>\<^verbatim>\<open>bytes.IndexByte\<close>: the index of the first occurrence, \<^term>\<open>None\<close> for \<^verbatim>\<open>-1\<close>.\<close>

fun IndexByte :: "byte list \<Rightarrow> byte \<Rightarrow> nat option" where
  "IndexByte [] c = None"
| "IndexByte (x # xs) c = (if x = c then Some 0 else map_option Suc (IndexByte xs c))"

section \<open>Decimal integers: \<^verbatim>\<open>%d\<close> and \<^verbatim>\<open>strconv.ParseInt\<close>\<close>

definition digitChar :: "nat \<Rightarrow> char" where
  "digitChar n = ''0123456789'' ! n"

definition digitVal :: "char \<Rightarrow> nat option" where
  "digitVal c = IndexByte ''0123456789'' c"

function decimal :: "nat \<Rightarrow> string" where
  "decimal n = (if n < 10 then [digitChar n] else decimal (n div 10) @ [digitChar (n mod 10)])"
  by pat_completeness auto
termination
  by (relation "measure id") auto

declare decimal.simps [simp del]

text \<open>\<^verbatim>\<open>fmt\<close>'s \<^verbatim>\<open>%d\<close> of a signed integer.\<close>

definition fmt_d :: "int \<Rightarrow> string" where
  "fmt_d i = (if i < 0 then CHR ''-'' # decimal (nat (- i)) else decimal (nat i))"

fun parseDigits :: "nat \<Rightarrow> string \<Rightarrow> nat option" where
  "parseDigits acc [] = Some acc"
| "parseDigits acc (c # cs) =
     (case digitVal c of None \<Rightarrow> None | Some d \<Rightarrow> parseDigits (acc * 10 + d) cs)"

text \<open>
  \<^verbatim>\<open>strconv.ParseUint(s, 10, 64)\<close> on unbounded naturals: \<^term>\<open>None\<close> is a syntax
  error (empty input or a byte that is no decimal digit). The range error is raised by
  \<^verbatim>\<open>ParseInt\<close>'s own cutoff below, which every value beyond 64 bits exceeds as well.
\<close>

definition ParseUint :: "string \<Rightarrow> nat option" where
  "ParseUint s = (if s = [] then None else parseDigits 0 s)"

text \<open>
  \<^verbatim>\<open>strconv.ParseInt(s, 10, 0)\<close>: an optional sign, decimal digits, and the result must
  fit \<^verbatim>\<open>int\<close> (64 bits). \<^term>\<open>None\<close> stands for a non-nil \<^verbatim>\<open>err\<close>.
\<close>

definition ParseInt :: "string \<Rightarrow> int option" where
  "ParseInt s =
     (if s = [] then None
      else let neg = (hd s = CHR ''-'');
               s' = (if hd s = CHR ''+'' \<or> hd s = CHR ''-'' then tl s else s)
           in case ParseUint s' of
                None \<Rightarrow> None
              | Some un \<Rightarrow>
                  if \<not> neg \<and> un \<ge> 2 ^ 63 then None
                  else if neg \<and> un > 2 ^ 63 then None
                  else Some (if neg then - int un else int un))"

text \<open>\<^verbatim>\<open>strings.TrimSuffix\<close>\<close>

definition TrimSuffix :: "string \<Rightarrow> string \<Rightarrow> string" where
  "TrimSuffix s suf =
     (if length suf \<le> length s \<and> drop (length s - length suf) s = suf
      then take (length s - length suf) s else s)"

section \<open>The encoder: \<^verbatim>\<open>ServerConn.Send\<close>\<close>

text \<open>
  The \<^verbatim>\<open>http.ResponseWriter\<close> behind a \<^verbatim>\<open>ServerConn\<close>: the bytes written so far,
  whether \<^verbatim>\<open>Flush\<close> was called, and how many more writes succeed before the sink starts
  to fail (\<^term>\<open>None\<close>: it never fails, as \<^verbatim>\<open>httptest.NewRecorder\<close>).
\<close>

record ResponseWriter =
  Body :: "byte list"
  Flushed :: bool
  writesLeft :: "nat option"

definition NewRecorder :: ResponseWriter where
  "NewRecorder = \<lparr>Body = [], Flushed = False, writesLeft = None\<rparr>"

text \<open>One \<^verbatim>\<open>fmt.Fprintf(s.w, ...)\<close> of an already formatted string.\<close>

definition Fprintf :: "ResponseWriter \<Rightarrow> byte list \<Rightarrow> ResponseWriter \<times> error option" where
  "Fprintf w s =
     (case writesLeft w of
        None \<Rightarrow> (w\<lparr>Body := Body w @ s\<rparr>, None)
      | Some 0 \<Rightarrow> (w, Some IOFailure)
      | Some (Suc n) \<Rightarrow> (w\<lparr>Body := Body w @ s, writesLeft := Some n\<rparr>, None))"

definition flush :: "ResponseWriter \<Rightarrow> ResponseWriter" where
  "flush w = w\<lparr>Flushed := True\<rparr>"

text \<open>The loop \<^verbatim>\<open>for len(data) > 0 { ... }\<close> of \<^verbatim>\<open>Send\<close>.\<close>

function writeDataLines :: "byte list \<Rightarrow> ResponseWriter \<Rightarrow> ResponseWriter \<times> error option" where
  "writeDataLines data w =
     (if length data > 0 then
        (case IndexByte data LF of
           None \<Rightarrow>
             (case Fprintf w (''data: '' @ data @ [LF]) of
                (w', Some err) \<Rightarrow> (w', Some err)
              | (w', None) \<Rightarrow> writeDataLines [] w')
         | Some nextNewline \<Rightarrow>
             (case Fprintf w (''data: '' @ take nextNewline data @ [LF]) of
                (w', Some err) \<Rightarrow> (w', Some err)
              | (w', None) \<Rightarrow> writeDataLines (drop (nextNewline + 1) data) w'))
      else (w, None))"
  by pat_completeness auto
termination
  by (relation "measure (\<lambda>(data, w). length data)") auto

text \<open>
  \<^verbatim>\<open>if err != nil { return err }\<close> after a write: the rest of \<^verbatim>\<open>Send\<close> runs only
  when the write succeeded.
\<close>

definition orReturn ::
  "ResponseWriter \<times> error option \<Rightarrow> (ResponseWriter \<Rightarrow> ResponseWriter \<times> error option)
    \<Rightarrow> ResponseWriter \<times> error option" where
  "orReturn r rest = (case r of (w, Some err) \<Rightarrow> (w, Some err) | (w, None) \<Rightarrow> rest w)"

declare writeDataLines.simps [simp del]

text \<open>\<^verbatim>\<open>Send\<close> without the deferred flush.\<close>

definition sendBody :: "Event \<Rightarrow> ResponseWriter \<Rightarrow> ResponseWriter \<times> error option" where
  "sendBody e w =
     (if IsZero e then Fprintf w ('':'' @ [LF, LF])
      else
        orReturn (if Event e \<noteq> [] then Fprintf w (''event: '' @ Event e @ [LF]) else (w, None))
        (\<lambda>w. orReturn (if ID e \<noteq> [] then Fprintf w (''id: '' @ ID e @ [LF]) else (w, None))
        (\<lambda>w. orReturn (if Retry e \<noteq> 0
                            then Fprintf w (''retry: '' @ fmt_d (sint (Retry e)) @ [LF])
                            else (w, None))
        (\<lambda>w. let data = bytes (Data e);
                 endsInNewline = (length data > 0 \<and> last data = LF);
                 data = (if endsInNewline then butlast data else data)
             in orReturn (writeDataLines data w)
        (\<lambda>w. orReturn (if endsInNewline then Fprintf w (''data:'' @ [LF]) else (w, None))
        (\<lambda>w. Fprintf w [LF]))))))"

text \<open>\<^verbatim>\<open>func (s *ServerConn) Send(e Event) error\<close>, with \<^verbatim>\<open>defer s.flush()\<close>.\<close>

definition Send :: "Event \<Rightarrow> ResponseWriter \<Rightarrow> ResponseWriter \<times> error option" where
  "Send e w = (case sendBody e w of (w', err) \<Rightarrow> (flush w', err))"

section \<open>The byte source: \<^verbatim>\<open>bufio.Reader\<close>\<close>

text \<open>
  The decoder reads through a \<^verbatim>\<open>*bufio.Reader\<close> of the standard library. A reader is
  the bytes its source still delivers (\<open>pending\<close>), the error the source reports once they
  are used up (\<open>srcErr\<close>, \<^term>\<open>EOF\<close> for a stream that just ends), the byte
  \<^verbatim>\<open>UnreadByte\<close> can push back (\<open>lastByte\<close>, \<^term>\<open>None\<close> for \<^verbatim>\<open>-1\<close>) and the size of
  its buffer, which decides where \<^verbatim>\<open>ReadLine\<close> cuts a long line.
\<close>

record Reader =
  pending :: "byte list"
  srcErr :: error
  lastByte :: "byte option"
  bufSize :: nat

text \<open>\<^verbatim>\<open>bufio.NewReaderSize\<close> never makes a buffer smaller than 16 bytes.\<close>

definition minReadBufferSize :: nat where
  "minReadBufferSize = 16"

definition defaultBufSize :: nat where
  "defaultBufSize = 4096"

definition NewReaderSize :: "byte list \<Rightarrow> nat \<Rightarrow> Reader" where
  "NewReaderSize input sz =
     \<lparr>pending = input, srcErr = EOF, lastByte = None, bufSize = max minReadBufferSize sz\<rparr>"

definition NewReader :: "byte list \<Rightarrow> Reader" where
  "NewReader input = NewReaderSize input defaultBufSize"

definition ReadByte :: "Reader \<Rightarrow> Reader \<times> (error + byte)" where
  "ReadByte r =
     (case pending r of
        [] \<Rightarrow> (r, Inl (srcErr r))
      | b # bs \<Rightarrow> (r\<lparr>pending := bs, lastByte := Some b\<rparr>, Inr b))"

text \<open>
  \<^verbatim>\<open>UnreadByte\<close> pushes the last byte read back; with none to push back it fails, and
  every caller in this package drops that error (\<^verbatim>\<open>_ = r.UnreadByte()\<close>).
\<close>

definition UnreadByte :: "Reader \<Rightarrow> Reader" where
  "UnreadByte r =
     (case lastByte r of
        None \<Rightarrow> r
      | Some b \<Rightarrow> r\<lparr>pending := b # pending r, lastByte := None\<rparr>)"

text \<open>
  \<^verbatim>\<open>ReadString(delim)\<close> reads up to and including the delimiter. When the source runs out
  first, everything is consumed and the source's error is returned (the bytes read so
  far, which \<^verbatim>\<open>Receive\<close> ignores, are not part of the result here).
\<close>

definition ReadString :: "Reader \<Rightarrow> byte \<Rightarrow> Reader \<times> (error + string)" where
  "ReadString r delim =
     (case IndexByte (pending r) delim of
        Some i \<Rightarrow>
          (r\<lparr>pending := drop (Suc i) (pending r), lastByte := Some delim\<rparr>,
           Inr (take (Suc i) (pending r)))
      | None \<Rightarrow>
          (r\<lparr>pending := [],
             lastByte := (if pending r = [] then lastByte r else Some (last (pending r)))\<rparr>,
           Inl (srcErr r)))"

text \<open>
  \<^verbatim>\<open>ReadLine\<close> returns one line without its end-of-line bytes (\<^verbatim>\<open>"\n"\<close> or
  \<^verbatim>\<open>"\r\n"\<close>). A line that does not fit the buffer comes in pieces, each but the last with
  \<^verbatim>\<open>isPrefix\<close> set; a carriage return that ends a full buffer is left for the next call.
  Input that ends without a newline is returned as a last line, and only the call after
  it reports the source's error. \<open>dropCR\<close> takes the carriage return of a \<^verbatim>\<open>"\r\n"\<close> off
  a line whose \<^verbatim>\<open>"\n"\<close> is gone already.
\<close>

definition dropCR :: "byte list \<Rightarrow> byte list" where
  "dropCR line = (if line \<noteq> [] \<and> last line = CR then butlast line else line)"

definition ReadLine :: "Reader \<Rightarrow> Reader \<times> (error + byte list \<times> bool)" where
  "ReadLine r =
     (let n = max minReadBufferSize (bufSize r); p = pending r in
      case IndexByte (take n p) LF of
        Some i \<Rightarrow>
          (r\<lparr>pending := drop (Suc i) p, lastByte := Some LF\<rparr>,
           Inr (dropCR (take i p), False))
      | None \<Rightarrow>
          if length p \<ge> n then
            (if p ! (n - 1) = CR
             then (r\<lparr>pending := drop (n - 1) p, lastByte := Some CR\<rparr>, Inr (take (n - 1) p, True))
             else (r\<lparr>pending := drop n p, lastByte := Some (p ! (n - 1))\<rparr>, Inr (take n p, True)))
          else if p = [] then (r, Inl (srcErr r))
          else (r\<lparr>pending := [], lastByte := Some (last p)\<rparr>, Inr (p, False)))"

section \<open>The decoder: \<^verbatim>\<open>ClientConn.Receive\<close>\<close>

record ClientConn =
  LastEventID :: string
  br :: Reader

definition NewClientConn :: "Reader \<Rightarrow> ClientConn" where
  "NewClientConn r = \<lparr>LastEventID = [], br = r\<rparr>"

text \<open>
  \<^verbatim>\<open>readFieldName(dataLeft, r)\<close>: the loop over \<^verbatim>\<open>dataLeft\<close> is the recursion over the
  list, the code after the loop is the case of the empty list.
\<close>

fun readFieldName :: "string \<Rightarrow> Reader \<Rightarrow> Reader \<times> (error + bool)" where
  "readFieldName [] r =
     (case ReadByte r of
        (r1, Inl err) \<Rightarrow> (r1, Inl err)
      | (r1, Inr b) \<Rightarrow>
          if b \<noteq> CHR '':'' then (UnreadByte r1, Inr False)
          else (case ReadByte r1 of
                  (r2, Inl err) \<Rightarrow> (r2, Inl err)
                | (r2, Inr b') \<Rightarrow> (if b' \<noteq> CHR '' '' then UnreadByte r2 else r2, Inr True)))"
| "readFieldName (x # dataLeft) r =
     (case ReadByte r of
        (r1, Inl err) \<Rightarrow> (r1, Inl err)
      | (r1, Inr b) \<Rightarrow>
          if b \<noteq> x then (r1, Inr False)
          else if b = LF then (UnreadByte r1, Inr False)
          else readFieldName dataLeft r1)"

text \<open>
  A piece of a line that \<^verbatim>\<open>ReadLine\<close> hands out with \<^verbatim>\<open>isPrefix\<close> set takes at least
  15 bytes off the input, so the loops that call \<^verbatim>\<open>ReadLine\<close> until \<^verbatim>\<open>isPrefix\<close> is
  false come to an end.
\<close>

lemma ReadLine_prefix_shorter:
  assumes "ReadLine r = (r', Inr (chunk, True))"
  shows "length (pending r') < length (pending r)"
  using assms
  by (auto simp: ReadLine_def Let_def minReadBufferSize_def split: option.splits if_splits)

text \<open>
  The loop of the \<^verbatim>\<open>'d'\<close> case: \<^verbatim>\<open>for isPrefix { data, isPrefix, err = c.br.ReadLine(); ... }\<close>.
  It returns the reader, the new \<^verbatim>\<open>event.Data\<close> and the error that makes \<^verbatim>\<open>Receive\<close>
  return, if any.
\<close>

function readDataLine :: "Reader \<Rightarrow> byte list option \<Rightarrow> Reader \<times> byte list option \<times> error option" where
  "readDataLine r eventData =
     (case ReadLine r of
        (r', Inl err) \<Rightarrow> (r', eventData, Some err)
      | (r', Inr (data, isPrefix)) \<Rightarrow>
          (let eventData' = append_slice eventData data in
           if len eventData' + length data \<ge> MaxEventDataSize
           then (r', eventData', Some errEventDataTooBig)
           else if isPrefix then readDataLine r' eventData'
           else (r', eventData', None)))"
  by pat_completeness auto
termination
  by (relation "measure (\<lambda>(r, d). length (pending r))")
     (auto dest: ReadLine_prefix_shorter [OF sym])

text \<open>
  The line eater at the bottom of the loop of \<^verbatim>\<open>Receive\<close>:
  \<^verbatim>\<open>for isPrefix { _, isPrefix, err = c.br.ReadLine(); ... }\<close>.
\<close>

function eatLine :: "Reader \<Rightarrow> Reader \<times> error option" where
  "eatLine r =
     (case ReadLine r of
        (r', Inl err) \<Rightarrow> (r', Some err)
      | (r', Inr (data, isPrefix)) \<Rightarrow> if isPrefix then eatLine r' else (r', None))"
  by pat_completeness auto
termination
  by (relation "measure (\<lambda>r. length (pending r))")
     (auto dest: ReadLine_prefix_shorter [OF sym])

text \<open>
  How one case of the \<^verbatim>\<open>switch\<close> in \<^verbatim>\<open>Receive\<close> ends: with a \<^verbatim>\<open>return\<close>, with
  \<^verbatim>\<open>continue\<close> (the next byte is read at once), or by leaving the switch (\<^verbatim>\<open>break\<close> or
  the end of the case), after which the line eater runs.
\<close>

datatype flow =
  Return ClientConn Event "error option"
| Continue ClientConn Event
| Break ClientConn Event

text \<open>\<^verbatim>\<open>case '\n'\<close>: dispatch.\<close>

definition caseNewline :: "ClientConn \<Rightarrow> Event \<Rightarrow> flow" where
  "caseNewline c event =
     (if len (Data event) = 0 then Continue c event
      else if last (bytes (Data event)) = LF
      then Return c (event\<lparr>Data := Some (butlast (bytes (Data event)))\<rparr>) None
      else Return c event None)"

text \<open>\<^verbatim>\<open>case 'e'\<close>\<close>

definition caseEvent :: "ClientConn \<Rightarrow> Event \<Rightarrow> flow" where
  "caseEvent c event =
     (case readFieldName ''vent'' (br c) of
        (r, Inl err) \<Rightarrow> Return (c\<lparr>br := r\<rparr>) event (Some err)
      | (r, Inr ok) \<Rightarrow>
          if \<not> ok then Break (c\<lparr>br := r\<rparr>) event
          else (case ReadString r LF of
                  (r', Inl err) \<Rightarrow> Return (c\<lparr>br := r'\<rparr>) event (Some err)
                | (r', Inr eventName) \<Rightarrow>
                    Break (c\<lparr>br := UnreadByte r'\<rparr>) (event\<lparr>Event := TrimSuffix eventName [LF]\<rparr>)))"

text \<open>\<^verbatim>\<open>case 'd'\<close>\<close>

definition caseData :: "ClientConn \<Rightarrow> Event \<Rightarrow> flow" where
  "caseData c event =
     (case readFieldName ''ata'' (br c) of
        (r, Inl err) \<Rightarrow> Return (c\<lparr>br := r\<rparr>) event (Some err)
      | (r, Inr ok) \<Rightarrow>
          if \<not> ok then Break (c\<lparr>br := r\<rparr>) event
          else (case readDataLine r (Data event) of
                  (r', d, Some err) \<Rightarrow> Return (c\<lparr>br := r'\<rparr>) (event\<lparr>Data := d\<rparr>) (Some err)
                | (r', d, None) \<Rightarrow>
                    Break (c\<lparr>br := UnreadByte r'\<rparr>) (event\<lparr>Data := append_slice d [LF]\<rparr>)))"

text \<open>\<^verbatim>\<open>case 'i'\<close>\<close>

definition caseID :: "ClientConn \<Rightarrow> Event \<Rightarrow> flow" where
  "caseID c event =
     (case readFieldName ''d'' (br c) of
        (r, Inl err) \<Rightarrow> Return (c\<lparr>br := r\<rparr>) event (Some err)
      | (r, Inr ok) \<Rightarrow>
          if \<not> ok then Break (c\<lparr>br := r\<rparr>) event
          else (case ReadString r LF of
                  (r', Inl err) \<Rightarrow> Return (c\<lparr>br := r'\<rparr>) event (Some err)
                | (r', Inr s) \<Rightarrow>
                    (let id = TrimSuffix s [LF] in
                     Break (c\<lparr>br := UnreadByte r', LastEventID := id\<rparr>) (event\<lparr>ID := id\<rparr>))))"

text \<open>\<^verbatim>\<open>case 'r'\<close>: a value that does not parse leaves \<^verbatim>\<open>event.Retry\<close> as it is.\<close>

definition caseRetry :: "ClientConn \<Rightarrow> Event \<Rightarrow> flow" where
  "caseRetry c event =
     (case readFieldName ''etry'' (br c) of
        (r, Inl err) \<Rightarrow> Return (c\<lparr>br := r\<rparr>) event (Some err)
      | (r, Inr ok) \<Rightarrow>
          if \<not> ok then Break (c\<lparr>br := r\<rparr>) event
          else (case ReadString r LF of
                  (r', Inl err) \<Rightarrow> Return (c\<lparr>br := r'\<rparr>) event (Some err)
                | (r', Inr retryStr) \<Rightarrow>
                    (case ParseInt (TrimSuffix retryStr [LF]) of
                       None \<Rightarrow> Break (c\<lparr>br := UnreadByte r'\<rparr>) event
                     | Some retry64 \<Rightarrow>
                         Break (c\<lparr>br := UnreadByte r'\<rparr>) (event\<lparr>Retry := word_of_int retry64\<rparr>))))"

text \<open>\<^verbatim>\<open>case 0xEF\<close>: the byte order mark.\<close>

definition caseBOM :: "ClientConn \<Rightarrow> Event \<Rightarrow> flow" where
  "caseBOM c event =
     (case ReadByte (br c) of
        (r, Inl err) \<Rightarrow> Return (c\<lparr>br := r\<rparr>) event (Some err)
      | (r, Inr b) \<Rightarrow>
          if b \<noteq> CHR 0xBB then Break (c\<lparr>br := r\<rparr>) event
          else (case ReadByte r of
                  (r', Inl err) \<Rightarrow> Return (c\<lparr>br := r'\<rparr>) event (Some err)
                | (r', Inr b') \<Rightarrow>
                    if b' \<noteq> CHR 0xBF then Break (c\<lparr>br := r'\<rparr>) event
                    else Continue (c\<lparr>br := r'\<rparr>) event))"

text \<open>
  The \<^verbatim>\<open>switch b\<close> of \<^verbatim>\<open>Receive\<close>; \<^verbatim>\<open>case ':'\<close> and \<^verbatim>\<open>default\<close> are empty and leave
  the line to the line eater.
\<close>

definition switch :: "byte \<Rightarrow> ClientConn \<Rightarrow> Event \<Rightarrow> flow" where
  "switch b c event =
     (if b = LF then caseNewline c event
      else if b = CHR ''e'' then caseEvent c event
      else if b = CHR ''d'' then caseData c event
      else if b = CHR ''i'' then caseID c event
      else if b = CHR ''r'' then caseRetry c event
      else if b = CHR 0xEF then caseBOM c event
      else Break c event)"

section \<open>Every iteration of the decoder consumes input\<close>

lemma ReadByte_Inr:
  "ReadByte r = (r', Inr b) \<longleftrightarrow> pending r = b # pending r' \<and> r' = r\<lparr>pending := pending r', lastByte := Some b\<rparr>"
  by (cases r) (auto simp: ReadByte_def split: list.splits)

lemma ReadByte_shorter:
  "ReadByte r = (r', Inr b) \<Longrightarrow> Suc (length (pending r')) = length (pending r)"
  by (auto simp: ReadByte_def split: list.splits)

lemma UnreadByte_length: "length (pending (UnreadByte r)) \<le> Suc (length (pending r))"
  by (simp add: UnreadByte_def split: option.splits)

lemma ReadByte_UnreadByte:
  "ReadByte r = (r', Inr b) \<Longrightarrow> pending (UnreadByte r') = pending r"
  by (auto simp: ReadByte_def UnreadByte_def split: list.splits)

lemma readFieldName_length:
  "readFieldName n r = (r', res) \<Longrightarrow> length (pending r') \<le> length (pending r)"
proof (induction n arbitrary: r)
  case Nil
  then show ?case
    by (auto simp: ReadByte_def UnreadByte_def split: list.splits if_splits)
next
  case (Cons x n)
  then show ?case
    by (fastforce simp: ReadByte_def UnreadByte_def split: list.splits if_splits)
qed

lemma IndexByte_Some_less: "IndexByte xs c = Some i \<Longrightarrow> i < length xs"
  by (induction xs arbitrary: i) (auto split: if_splits)

lemma ReadLine_shorter:
  "ReadLine r = (r', Inr x) \<Longrightarrow> length (pending r') < length (pending r)"
  by (auto simp: ReadLine_def Let_def minReadBufferSize_def split: option.splits if_splits
      dest!: IndexByte_Some_less)

lemma ReadString_UnreadByte_length:
  "ReadString r d = (r', Inr s) \<Longrightarrow> length (pending (UnreadByte r')) \<le> length (pending r)"
  by (auto simp: ReadString_def UnreadByte_def split: option.splits dest!: IndexByte_Some_less)

lemma readDataLine_shorter:
  "readDataLine r d = (r', d', None) \<Longrightarrow> length (pending r') < length (pending r)"
proof (induction r d rule: readDataLine.induct)
  case (1 r eventData)
  show ?case
  proof (cases "ReadLine r")
    case (Pair r1 res)
    show ?thesis
    proof (cases res)
      case (Inl e)
      with Pair "1.prems" show ?thesis by (simp add: readDataLine.simps [of r])
    next
      case (Inr x)
      obtain data isPrefix where x: "x = (data, isPrefix)" by (cases x)
      have sh: "length (pending r1) < length (pending r)"
        using Pair Inr by (auto dest: ReadLine_shorter)
      show ?thesis
      proof (cases isPrefix)
        case True
        with Pair Inr x "1.prems" have
          "readDataLine r1 (append_slice eventData data) = (r', d', None)"
          and "\<not> MaxEventDataSize \<le> len (append_slice eventData data) + length data"
          by (auto simp: readDataLine.simps [of r] Let_def split: if_splits)
        with "1.IH" [OF Pair [symmetric] Inr x [symmetric] refl] True
        have "length (pending r') < length (pending r1)" by (simp add: x)
        with sh show ?thesis by simp
      next
        case False
        with Pair Inr x "1.prems" have "r' = r1"
          by (auto simp: readDataLine.simps [of r] Let_def split: if_splits)
        with sh show ?thesis by simp
      qed
    qed
  qed
qed

lemma eatLine_shorter:
  "eatLine r = (r', None) \<Longrightarrow> length (pending r') < length (pending r)"
proof (induction r rule: eatLine.induct)
  case (1 r)
  show ?case
  proof (cases "ReadLine r")
    case (Pair r1 res)
    show ?thesis
    proof (cases res)
      case (Inl e)
      with Pair "1.prems" show ?thesis by (simp add: eatLine.simps [of r])
    next
      case (Inr x)
      obtain data isPrefix where x: "x = (data, isPrefix)" by (cases x)
      have sh: "length (pending r1) < length (pending r)"
        using Pair Inr by (auto dest: ReadLine_shorter)
      show ?thesis
      proof (cases isPrefix)
        case True
        with Pair Inr x "1.prems" have "eatLine r1 = (r', None)"
          by (auto simp: eatLine.simps [of r])
        with "1.IH" [OF Pair [symmetric] Inr x [symmetric]] True
        have "length (pending r') < length (pending r1)" by simp
        with sh show ?thesis by simp
      next
        case False
        with Pair Inr x "1.prems" have "r' = r1"
          by (auto simp: eatLine.simps [of r])
        with sh show ?thesis by simp
      qed
    qed
  qed
qed


declare readFieldName.simps [simp del] readDataLine.simps [simp del] eatLine.simps [simp del]

lemma caseNewline_length:
  "caseNewline c ev = Continue c' ev' \<or> caseNewline c ev = Break c' ev' \<Longrightarrow>
     length (pending (br c')) \<le> length (pending (br c))"
  by (auto simp: caseNewline_def split: if_splits)

lemma caseEvent_length:
  "caseEvent c ev = Continue c' ev' \<or> caseEvent c ev = Break c' ev' \<Longrightarrow>
     length (pending (br c')) \<le> length (pending (br c))"
  by (auto simp: caseEvent_def split: prod.splits sum.splits if_splits
      dest!: readFieldName_length ReadString_UnreadByte_length)

lemma caseID_length:
  "caseID c ev = Continue c' ev' \<or> caseID c ev = Break c' ev' \<Longrightarrow>
     length (pending (br c')) \<le> length (pending (br c))"
  by (auto simp: caseID_def Let_def split: prod.splits sum.splits if_splits
      dest!: readFieldName_length ReadString_UnreadByte_length)

lemma caseRetry_length:
  "caseRetry c ev = Continue c' ev' \<or> caseRetry c ev = Break c' ev' \<Longrightarrow>
     length (pending (br c')) \<le> length (pending (br c))"
  by (auto simp: caseRetry_def split: prod.splits sum.splits if_splits option.splits
      dest!: readFieldName_length ReadString_UnreadByte_length)

lemma readDataLine_UnreadByte_length:
  "readDataLine r d = (r', d', None) \<Longrightarrow> length (pending (UnreadByte r')) \<le> length (pending r)"
  using readDataLine_shorter [of r d r' d'] UnreadByte_length [of r'] by simp

lemma caseData_length:
  "caseData c ev = Continue c' ev' \<or> caseData c ev = Break c' ev' \<Longrightarrow>
     length (pending (br c')) \<le> length (pending (br c))"
  by (auto simp: caseData_def split: prod.splits sum.splits if_splits option.splits
      dest!: readFieldName_length readDataLine_UnreadByte_length)

lemma caseBOM_length:
  "caseBOM c ev = Continue c' ev' \<or> caseBOM c ev = Break c' ev' \<Longrightarrow>
     length (pending (br c')) \<le> length (pending (br c))"
  by (auto simp: caseBOM_def split: prod.splits sum.splits if_splits
      dest!: ReadByte_shorter)

lemma switch_length:
  "switch b c ev = Continue c' ev' \<or> switch b c ev = Break c' ev' \<Longrightarrow>
     length (pending (br c')) \<le> length (pending (br c))"
  unfolding switch_def
  using caseNewline_length [of c ev c' ev'] caseEvent_length [of c ev c' ev']
    caseData_length [of c ev c' ev'] caseID_length [of c ev c' ev']
    caseRetry_length [of c ev c' ev'] caseBOM_length [of c ev c' ev']
  by (auto split: if_splits)

text \<open>The \<^verbatim>\<open>for { ... }\<close> loop of \<^verbatim>\<open>Receive\<close>, from the current reader and event.\<close>

function receiveLoop :: "ClientConn \<Rightarrow> Event \<Rightarrow> ClientConn \<times> Event \<times> error option" where
  "receiveLoop c event =
     (case ReadByte (br c) of
        (r, Inl err) \<Rightarrow> (c\<lparr>br := r\<rparr>, event, Some err)
      | (r, Inr b) \<Rightarrow>
          (case switch b (c\<lparr>br := r\<rparr>) event of
             Return c' event' err \<Rightarrow> (c', event', err)
           | Continue c' event' \<Rightarrow> receiveLoop c' event'
           | Break c' event' \<Rightarrow>
               (case eatLine (br c') of
                  (r', Some err) \<Rightarrow> (c'\<lparr>br := r'\<rparr>, event', Some err)
                | (r', None) \<Rightarrow> receiveLoop (c'\<lparr>br := r'\<rparr>) event')))"
  by pat_completeness auto
termination
proof (relation "measure (\<lambda>(c, event). length (pending (br c)))")
  show "wf (measure (\<lambda>(c, event). length (pending (br c))))" by simp
next
  fix c event r y b c' event'
  assume rb: "(r, y) = ReadByte (br c)" "y = Inr b"
    and sw: "switch b (c\<lparr>br := r\<rparr>) event = Continue c' event'"
  from rb have "Suc (length (pending r)) = length (pending (br c))"
    by (auto dest: ReadByte_shorter [OF sym])
  moreover from sw have "length (pending (br c')) \<le> length (pending r)"
    using switch_length [of b "c\<lparr>br := r\<rparr>" event c' event'] by simp
  ultimately show "((c', event'), c, event) \<in> measure (\<lambda>(c, event). length (pending (br c)))"
    by simp
next
  fix c event r y b c' event' r' e
  assume rb: "(r, y) = ReadByte (br c)" "y = Inr b"
    and sw: "switch b (c\<lparr>br := r\<rparr>) event = Break c' event'"
    and el: "(r', e) = eatLine (br c')" "e = None"
  from rb have "Suc (length (pending r)) = length (pending (br c))"
    by (auto dest: ReadByte_shorter [OF sym])
  moreover from el have "length (pending r') < length (pending (br c'))"
    by (auto dest: eatLine_shorter [OF sym])
  moreover from sw have "length (pending (br c')) \<le> length (pending r)"
    using switch_length [of b "c\<lparr>br := r\<rparr>" event c' event'] by simp
  ultimately show "((c'\<lparr>br := r'\<rparr>, event'), c, event) \<in> measure (\<lambda>(c, event). length (pending (br c)))"
    by simp
qed

declare receiveLoop.simps [simp del]

text \<open>
  \<^verbatim>\<open>func (c *ClientConn) Receive(buf []byte) (Event, error)\<close>: the event starts as the
  zero event, with \<^verbatim>\<open>buf[:0]\<close> as its data when a buffer is passed. The result is the connection
  after the call and the two values the Go function returns.
\<close>

definition Receive :: "ClientConn \<Rightarrow> byte list option \<Rightarrow> ClientConn \<times> Event \<times> error option" where
  "Receive c buf =
     receiveLoop c \<lparr>Event = [], Data = (case buf of None \<Rightarrow> None | Some b \<Rightarrow> Some []), ID = [], Retry = 0\<rparr>"

lemma switch_Return_None:
  assumes "switch b c ev = Return c' ev' None"
  shows "b = LF \<and> c' = c \<and> len (Data ev) \<noteq> 0 \<and> caseNewline c ev = Return c' ev' None"
proof -
  have "caseEvent c ev \<noteq> Return c' ev' None"
    by (auto simp: caseEvent_def split: prod.splits sum.splits)
  moreover have "caseData c ev \<noteq> Return c' ev' None"
    by (auto simp: caseData_def split: prod.splits sum.splits option.splits)
  moreover have "caseID c ev \<noteq> Return c' ev' None"
    by (auto simp: caseID_def Let_def split: prod.splits sum.splits)
  moreover have "caseRetry c ev \<noteq> Return c' ev' None"
    by (auto simp: caseRetry_def split: prod.splits sum.splits option.splits)
  moreover have "caseBOM c ev \<noteq> Return c' ev' None"
    by (auto simp: caseBOM_def split: prod.splits sum.splits)
  ultimately have "b = LF" and "caseNewline c ev = Return c' ev' None"
    using assms by (auto simp: switch_def split: if_splits)
  then show ?thesis
    by (auto simp: caseNewline_def split: if_splits)
qed

lemma receiveLoop_shorter:
  "receiveLoop c event = (c', event', None) \<Longrightarrow>
     length (pending (br c')) < length (pending (br c))"
proof (induction c event rule: receiveLoop.induct)
  case (1 c event)
  obtain r y where rb: "ReadByte (br c) = (r, y)" by (cases "ReadByte (br c)")
  show ?case
  proof (cases y)
    case (Inl err)
    with rb "1.prems" show ?thesis by (simp add: receiveLoop.simps [of c])
  next
    case (Inr b)
    from rb Inr have sh: "Suc (length (pending r)) = length (pending (br c))"
      by (auto dest: ReadByte_shorter)
    show ?thesis
    proof (cases "switch b (c\<lparr>br := r\<rparr>) event")
      case (Return c1 e1 err)
      with rb Inr "1.prems" have "c' = c1" "err = None"
        by (simp_all add: receiveLoop.simps [of c])
      moreover from Return \<open>err = None\<close> have "length (pending (br c1)) \<le> length (pending r)"
        by (auto dest: switch_Return_None)
      ultimately show ?thesis using sh by simp
    next
      case (Continue c1 e1)
      with rb Inr "1.prems" have "receiveLoop c1 e1 = (c', event', None)"
        by (simp add: receiveLoop.simps [of c])
      from "1.IH"(1) [OF rb [symmetric] Inr Continue this]
      have "length (pending (br c')) < length (pending (br c1))" .
      moreover have "length (pending (br c1)) \<le> length (pending r)"
        using switch_length [of b "c\<lparr>br := r\<rparr>" event c1 e1] Continue by simp
      ultimately show ?thesis using sh by simp
    next
      case (Break c1 e1)
      obtain r1 e where el: "eatLine (br c1) = (r1, e)" by (cases "eatLine (br c1)")
      have le: "length (pending (br c1)) \<le> length (pending r)"
        using switch_length [of b "c\<lparr>br := r\<rparr>" event c1 e1] Break by simp
      show ?thesis
      proof (cases e)
        case None
        with rb Inr Break el "1.prems" have "receiveLoop (c1\<lparr>br := r1\<rparr>) e1 = (c', event', None)"
          by (simp add: receiveLoop.simps [of c])
        from "1.IH"(2) [OF rb [symmetric] Inr Break el [symmetric] None this]
        have "length (pending (br c')) < length (pending r1)" by simp
        moreover from el None have "length (pending r1) < length (pending (br c1))"
          by (auto dest: eatLine_shorter)
        ultimately show ?thesis using sh le by simp
      next
        case (Some err)
        with rb Inr Break el "1.prems" show ?thesis
          by (simp add: receiveLoop.simps [of c])
      qed
    qed
  qed
qed

text \<open>
  The loop of the test helper \<^verbatim>\<open>testClientConnConsumption\<close>: call \<^verbatim>\<open>Receive\<close>, passing the
  data of the last event as the buffer, until it returns an error (\<^verbatim>\<open>if err != nil\<close> ends
  the loop). The result is the events received so far, in order, and that error.
\<close>

function consume :: "ClientConn \<Rightarrow> byte list option \<Rightarrow> Event list \<Rightarrow> Event list \<times> error option" where
  "consume c buf got =
     (case Receive c buf of
        (c', event, err) \<Rightarrow>
          if err \<noteq> None then (got, err)
          else consume c' (Data event) (got @ [event]))"
  by pat_completeness auto
termination
  by (relation "measure (\<lambda>(c, buf, got). length (pending (br c)))")
     (auto simp: Receive_def dest: receiveLoop_shorter [OF sym])

declare consume.simps [simp del]

text \<open>
  The loop of the test helper \<^verbatim>\<open>testCompleteServer\<close>: \<^verbatim>\<open>Send\<close> each event in turn, stopping at
  the first error.
\<close>

fun sendAll :: "Event list \<Rightarrow> ResponseWriter \<Rightarrow> ResponseWriter \<times> error option" where
  "sendAll [] w = (w, None)"
| "sendAll (ev # events) w =
     (case Send ev w of
        (w', Some err) \<Rightarrow> (w', Some err)
      | (w', None) \<Rightarrow> sendAll events w')"

section \<open>Running the encoder and the decoder on given input\<close>

lemmas writer_defs = Send_def sendBody_def IsZero_def orReturn_def Fprintf_def flush_def
  NewRecorder_def writeDataLines.simps bytes_def

lemmas reader_defs = NewClientConn_def NewReader_def NewReaderSize_def defaultBufSize_def
  minReadBufferSize_def ReadByte_def UnreadByte_def ReadString_def ReadLine_def dropCR_def

lemmas decoder_defs = consume.simps Receive_def receiveLoop.simps switch_def caseNewline_def
  caseEvent_def caseData_def caseID_def caseRetry_def caseBOM_def readFieldName.simps
  readDataLine.simps eatLine.simps len_def bytes_def append_slice_def TrimSuffix_def
  MaxEventDataSize_def Let_def

section \<open>What the reader does with one line of input\<close>

lemma IndexByte_None_iff: "IndexByte xs c = None \<longleftrightarrow> c \<notin> set xs"
  by (induction xs) auto

lemma IndexByte_append_Cons:
  "c \<notin> set l \<Longrightarrow> IndexByte (l @ c # rest) c = Some (length l)"
  by (induction l) auto

lemma IndexByte_take_line:
  assumes "c \<notin> set l"
  shows "IndexByte (take n (l @ c # rest)) c = (if length l < n then Some (length l) else None)"
proof (cases "length l < n")
  case True
  then have "take n (l @ c # rest) = l @ c # take (n - Suc (length l)) rest"
    by (simp add: take_Cons')
  with assms True show ?thesis by (simp add: IndexByte_append_Cons)
next
  case False
  then have "take n (l @ c # rest) = take n l" by simp
  moreover have "c \<notin> set (take n l)" using assms by (auto dest: in_set_takeD)
  ultimately show ?thesis using False by (simp add: IndexByte_None_iff)
qed

lemma TrimSuffix_line: "TrimSuffix (l @ [c]) [c] = l"
  by (simp add: TrimSuffix_def)

lemma ReadString_line:
  assumes "pending r = l @ LF # rest" "LF \<notin> set l"
  shows "ReadString r LF = (r\<lparr>pending := rest, lastByte := Some LF\<rparr>, Inr (l @ [LF]))"
  using assms by (simp add: ReadString_def IndexByte_append_Cons)

lemma ReadLine_whole:
  assumes "pending r = l @ LF # rest" "LF \<notin> set l"
    and "length l < max minReadBufferSize (bufSize r)"
  shows "ReadLine r = (r\<lparr>pending := rest, lastByte := Some LF\<rparr>, Inr (dropCR l, False))"
proof -
  define n where "n = max minReadBufferSize (bufSize r)"
  define p where "p = pending r"
  have p: "p = l @ LF # rest" using assms(1) by (simp add: p_def)
  have lt: "length l < n" using assms(3) by (simp add: n_def)
  have "IndexByte (take n p) LF = (if length l < n then Some (length l) else None)"
    unfolding p by (rule IndexByte_take_line [OF assms(2)])
  with lt have ib: "IndexByte (take n p) LF = Some (length l)"
    by (simp only: if_True)
  show ?thesis
    unfolding ReadLine_def Let_def n_def [symmetric] p_def [symmetric] ib
    by (simp add: p)
qed

lemma ReadLine_piece:
  assumes "pending r = l @ LF # rest" "LF \<notin> set l"
    and "max minReadBufferSize (bufSize r) \<le> length l"
  shows "ReadLine r =
    (let n = max minReadBufferSize (bufSize r); k = (if l ! (n - 1) = CR then n - 1 else n) in
     (r\<lparr>pending := drop k l @ LF # rest, lastByte := Some (l ! (n - 1))\<rparr>, Inr (take k l, True)))"
proof -
  define n where "n = max minReadBufferSize (bufSize r)"
  define p where "p = pending r"
  have p: "p = l @ LF # rest" using assms(1) by (simp add: p_def)
  have n: "16 \<le> n" "n \<le> length l" using assms(3) by (simp_all add: n_def minReadBufferSize_def)
  have nlt: "\<not> length l < n" using n by simp
  have "IndexByte (take n p) LF = (if length l < n then Some (length l) else None)"
    unfolding p by (rule IndexByte_take_line [OF assms(2)])
  with nlt have ib: "IndexByte (take n p) LF = None"
    by (simp only: if_False)
  have "n - 1 < length l" using n by arith
  then have nth: "p ! (n - 1) = l ! (n - 1)" unfolding p by (rule nth_append_left)
  have len: "n \<le> length p" using n by (simp add: p)
  have tk: "take n p = take n l" "take (n - Suc 0) p = take (n - Suc 0) l"
    "drop n p = drop n l @ LF # rest" "drop (n - Suc 0) p = drop (n - Suc 0) l @ LF # rest"
    using n by (simp_all add: p)
  show ?thesis
    unfolding ReadLine_def Let_def n_def [symmetric] p_def [symmetric] ib nth
    using len by (simp add: tk)
qed


lemma append_slice_append: "append_slice (append_slice d a) b = append_slice d (a @ b)"
  by (auto simp: append_slice_def split: option.splits)

lemma len_append_slice: "len (append_slice d a) = len d + length a"
  by (auto simp: append_slice_def len_def split: option.splits)

lemma dropCR_length: "length (dropCR l) \<le> length l"
  by (simp add: dropCR_def)

lemma dropCR_split:
  assumes "drop k l \<noteq> []"
  shows "dropCR l = take k l @ dropCR (drop k l)"
proof -
  from assms have "l \<noteq> []" by auto
  have l: "l = take k l @ drop k l" by simp
  have "last l = last (drop k l)" using assms by (subst l) (simp only: last_append if_False)
  moreover have "butlast l = take k l @ butlast (drop k l)"
    using assms by (subst l) (simp only: butlast_append if_False)
  ultimately show ?thesis using assms \<open>l \<noteq> []\<close> by (simp add: dropCR_def)
qed

lemma eatLine_line:
  assumes "pending r = l @ LF # rest" "LF \<notin> set l"
  shows "eatLine r = (r\<lparr>pending := rest, lastByte := Some LF\<rparr>, None)"
  using assms
proof (induction "length l" arbitrary: r l rule: less_induct)
  case less
  define n where "n = max minReadBufferSize (bufSize r)"
  show ?case
  proof (cases "length l < n")
    case True
    with less.prems have "ReadLine r = (r\<lparr>pending := rest, lastByte := Some LF\<rparr>, Inr (dropCR l, False))"
      by (simp add: ReadLine_whole n_def)
    then show ?thesis by (simp add: eatLine.simps [of r])
  next
    case False
    define k where "k = (if l ! (n - 1) = CR then n - 1 else n)"
    define r' where "r' = r\<lparr>pending := drop k l @ LF # rest, lastByte := Some (l ! (n - 1))\<rparr>"
    have n: "16 \<le> n" "n \<le> length l" using False by (auto simp: n_def minReadBufferSize_def)
    then have k: "0 < k" "k \<le> length l" by (auto simp: k_def)
    have "max minReadBufferSize (bufSize r) \<le> length l" using False unfolding n_def by linarith
    from ReadLine_piece [OF less.prems(1,2) this]
    have rl: "ReadLine r = (r', Inr (take k l, True))"
      by (simp add: n_def k_def r'_def Let_def)
    have "eatLine r' = (r'\<lparr>pending := rest, lastByte := Some LF\<rparr>, None)"
    proof (rule less.hyps)
      show "length (drop k l) < length l" using k by simp
      show "pending r' = drop k l @ LF # rest" by (simp add: r'_def)
      show "LF \<notin> set (drop k l)" using less.prems(2) by (auto dest: in_set_dropD)
    qed
    with rl show ?thesis by (simp add: eatLine.simps [of r] r'_def)
  qed
qed

lemma readDataLine_line:
  assumes "pending r = l @ LF # rest" "LF \<notin> set l"
    and "len d + 2 * length l < MaxEventDataSize"
  shows "readDataLine r d =
    (r\<lparr>pending := rest, lastByte := Some LF\<rparr>, append_slice d (dropCR l), None)"
  using assms
proof (induction "length l" arbitrary: r l d rule: less_induct)
  case less
  define n where "n = max minReadBufferSize (bufSize r)"
  show ?case
  proof (cases "length l < n")
    case True
    with less.prems have "ReadLine r = (r\<lparr>pending := rest, lastByte := Some LF\<rparr>, Inr (dropCR l, False))"
      by (simp add: ReadLine_whole n_def)
    moreover have "\<not> MaxEventDataSize \<le> len (append_slice d (dropCR l)) + length (dropCR l)"
      using less.prems(3) dropCR_length [of l] by (simp add: len_append_slice)
    ultimately show ?thesis by (simp add: readDataLine.simps [of r] Let_def)
  next
    case False
    define k where "k = (if l ! (n - 1) = CR then n - 1 else n)"
    define r' where "r' = r\<lparr>pending := drop k l @ LF # rest, lastByte := Some (l ! (n - 1))\<rparr>"
    have n: "16 \<le> n" "n \<le> length l" using False by (auto simp: n_def minReadBufferSize_def)
    then have k: "0 < k" "k \<le> length l" by (auto simp: k_def)
    have "max minReadBufferSize (bufSize r) \<le> length l" using False unfolding n_def by linarith
    from ReadLine_piece [OF less.prems(1,2) this]
    have rl: "ReadLine r = (r', Inr (take k l, True))"
      by (simp add: n_def k_def r'_def Let_def)
    have small: "\<not> MaxEventDataSize \<le> len (append_slice d (take k l)) + length (take k l)"
      using less.prems(3) k by (simp add: len_append_slice)
    have "readDataLine r' (append_slice d (take k l)) =
      (r'\<lparr>pending := rest, lastByte := Some LF\<rparr>,
       append_slice (append_slice d (take k l)) (dropCR (drop k l)), None)"
    proof (rule less.hyps)
      show "length (drop k l) < length l" using k by simp
      show "pending r' = drop k l @ LF # rest" by (simp add: r'_def)
      show "LF \<notin> set (drop k l)" using less.prems(2) by (auto dest: in_set_dropD)
      show "len (append_slice d (take k l)) + 2 * length (drop k l) < MaxEventDataSize"
        using less.prems(3) k by (simp add: len_append_slice)
    qed
    moreover have "take k l @ dropCR (drop k l) = dropCR l"
    proof (cases "drop k l = []")
      case True
      with k have kl: "k = length l" by simp
      with n have "k = n" "l ! (n - 1) \<noteq> CR" by (auto simp: k_def split: if_splits)
      then have "l ! (length l - 1) \<noteq> CR" using kl by simp
      moreover have "l \<noteq> []" using n by auto
      ultimately have "last l \<noteq> CR" using kl by (simp add: last_conv_nth)
      with True show ?thesis by (simp add: dropCR_def)
    next
      case False
      then show ?thesis by (simp add: dropCR_split [of k l])
    qed
    ultimately show ?thesis
      using rl small by (simp add: readDataLine.simps [of r] Let_def r'_def append_slice_append)
  qed
qed

section \<open>What the decoder does with one line of input\<close>

text \<open>
  The value of a field line: what follows the colon, without the one space that may
  separate the two.
\<close>

definition fieldValue :: "string \<Rightarrow> string" where
  "fieldValue v = (if v \<noteq> [] \<and> hd v = CHR '' '' then tl v else v)"

text \<open>The connection once the reader has consumed a line and \<open>rest\<close> is still to come.\<close>

definition nextLine :: "ClientConn \<Rightarrow> byte list \<Rightarrow> ClientConn" where
  "nextLine c rest = c\<lparr>br := (br c)\<lparr>pending := rest, lastByte := Some LF\<rparr>\<rparr>"

lemma nextLine_simps [simp]:
  "pending (br (nextLine c rest)) = rest"
  "LastEventID (nextLine c rest) = LastEventID c"
  "br (nextLine c rest) = (br c)\<lparr>pending := rest, lastByte := Some LF\<rparr>"
  "srcErr (br (nextLine c rest)) = srcErr (br c)"
  "bufSize (br (nextLine c rest)) = bufSize (br c)"
  "nextLine (nextLine c a) b = nextLine c b"
  by (simp_all add: nextLine_def)

lemma fieldValue_set: "set (fieldValue v) \<subseteq> set v"
  by (auto simp: fieldValue_def dest: list.set_sel(2))

lemma ReadByte_Cons:
  "pending r = b # bs \<Longrightarrow> ReadByte r = (r\<lparr>pending := bs, lastByte := Some b\<rparr>, Inr b)"
  by (simp add: ReadByte_def)

lemma ReadByte_Nil: "pending r = [] \<Longrightarrow> ReadByte r = (r, Inl (srcErr r))"
  by (simp add: ReadByte_def)

lemma readFieldName_colon:
  assumes "pending r = name @ CHR '':'' # b # bs" "LF \<notin> set name"
  shows "readFieldName name r =
    (if b = CHR '' '' then r\<lparr>pending := bs, lastByte := Some b\<rparr>
     else r\<lparr>pending := b # bs, lastByte := None\<rparr>, Inr True)"
  using assms
proof (induction name arbitrary: r)
  case Nil
  then show ?case
    by (simp add: readFieldName.simps ReadByte_Cons UnreadByte_def)
next
  case (Cons x name)
  define r1 where "r1 = r\<lparr>pending := name @ CHR '':'' # b # bs, lastByte := Some x\<rparr>"
  from Cons.prems have rb: "ReadByte r = (r1, Inr x)" and x: "x \<noteq> LF"
    by (auto simp: ReadByte_Cons r1_def)
  have "readFieldName name r1 =
    (if b = CHR '' '' then r1\<lparr>pending := bs, lastByte := Some b\<rparr>
     else r1\<lparr>pending := b # bs, lastByte := None\<rparr>, Inr True)"
    using Cons.prems by (intro Cons.IH) (simp_all add: r1_def)
  with rb x show ?case by (simp add: readFieldName.simps r1_def)
qed

lemma readFieldName_field:
  assumes "pending r = name @ CHR '':'' # v @ LF # rest" "LF \<notin> set name"
  shows "readFieldName name r =
    (r\<lparr>pending := fieldValue v @ LF # rest,
       lastByte := (if v \<noteq> [] \<and> hd v = CHR '' '' then Some (CHR '' '') else None)\<rparr>, Inr True)"
proof (cases v)
  case Nil
  with assms show ?thesis
    using readFieldName_colon [of r name LF rest] by (simp add: fieldValue_def)
next
  case (Cons b v')
  with assms show ?thesis
    using readFieldName_colon [of r name b "v' @ LF # rest"] by (simp add: fieldValue_def)
qed


lemma eatLine_newline:
  "pending r = LF # rest \<Longrightarrow> eatLine r = (r\<lparr>pending := rest, lastByte := Some LF\<rparr>, None)"
  using eatLine_line [of r "[]" rest] by simp

lemma UnreadByte_Some:
  "lastByte r = Some b \<Longrightarrow> UnreadByte r = r\<lparr>pending := b # pending r, lastByte := None\<rparr>"
  by (simp add: UnreadByte_def)

lemma receiveLoop_eof:
  "pending (br c) = [] \<Longrightarrow> receiveLoop c ev = (c, ev, Some (srcErr (br c)))"
  by (simp add: receiveLoop.simps [of c] ReadByte_Nil)

lemma receiveLoop_blank_no_data:
  assumes "pending (br c) = LF # rest" "len (Data ev) = 0"
  shows "receiveLoop c ev = receiveLoop (nextLine c rest) ev"
  using assms
  by (simp add: receiveLoop.simps [of c] ReadByte_Cons switch_def caseNewline_def nextLine_def)

lemma receiveLoop_blank_data:
  assumes "pending (br c) = LF # rest" "len (Data ev) \<noteq> 0"
  shows "receiveLoop c ev =
    (nextLine c rest,
     (if last (bytes (Data ev)) = LF then ev\<lparr>Data := Some (butlast (bytes (Data ev)))\<rparr> else ev),
     None)"
  using assms
  by (simp add: receiveLoop.simps [of c] ReadByte_Cons switch_def caseNewline_def nextLine_def)

lemma receiveLoop_other_line:
  assumes "pending (br c) = b # l @ LF # rest" "LF \<notin> set l"
    and "b \<noteq> LF" "b \<noteq> CHR ''e''" "b \<noteq> CHR ''d''" "b \<noteq> CHR ''i''" "b \<noteq> CHR ''r''" "b \<noteq> CHR 0xEF"
  shows "receiveLoop c ev = receiveLoop (nextLine c rest) ev"
proof -
  define r where "r = (br c)\<lparr>pending := l @ LF # rest, lastByte := Some b\<rparr>"
  have "ReadByte (br c) = (r, Inr b)" using assms(1) by (simp add: ReadByte_Cons r_def)
  moreover have "switch b (c\<lparr>br := r\<rparr>) ev = Break (c\<lparr>br := r\<rparr>) ev"
    using assms(3-) by (simp add: switch_def)
  moreover have "eatLine r = (r\<lparr>pending := rest, lastByte := Some LF\<rparr>, None)"
    using assms(2) by (intro eatLine_line) (simp_all add: r_def)
  ultimately show ?thesis
    by (simp add: receiveLoop.simps [of c] nextLine_def r_def)
qed

lemma receiveLoop_bom:
  assumes "pending (br c) = CHR 0xEF # CHR 0xBB # CHR 0xBF # rest"
  shows "receiveLoop c ev =
    receiveLoop (c\<lparr>br := (br c)\<lparr>pending := rest, lastByte := Some (CHR 0xBF)\<rparr>\<rparr>) ev"
  using assms
  by (simp add: receiveLoop.simps [of c] ReadByte_Cons switch_def caseBOM_def)

lemma receiveLoop_event_line:
  assumes "pending (br c) = ''event:'' @ v @ LF # rest" "LF \<notin> set v"
  shows "receiveLoop c ev = receiveLoop (nextLine c rest) (ev\<lparr>Event := fieldValue v\<rparr>)"
proof -
  define r where "r = (br c)\<lparr>pending := ''vent:'' @ v @ LF # rest, lastByte := Some (CHR ''e'')\<rparr>"
  define r1 where "r1 = r\<lparr>pending := fieldValue v @ LF # rest,
       lastByte := (if v \<noteq> [] \<and> hd v = CHR '' '' then Some (CHR '' '') else None)\<rparr>"
  define r2 where "r2 = r1\<lparr>pending := rest, lastByte := Some LF\<rparr>"
  have fv: "LF \<notin> set (fieldValue v)" using assms(2) fieldValue_set [of v] by auto
  have rb: "ReadByte (br c) = (r, Inr (CHR ''e''))" using assms(1) by (simp add: ReadByte_Cons r_def)
  have rf: "readFieldName ''vent'' r = (r1, Inr True)"
    unfolding r1_def by (rule readFieldName_field) (simp_all add: r_def)
  have rs: "ReadString r1 LF = (r2, Inr (fieldValue v @ [LF]))"
    unfolding r2_def using fv by (intro ReadString_line) (simp_all add: r1_def)
  have ur: "UnreadByte r2 = r2\<lparr>pending := LF # rest, lastByte := None\<rparr>"
    by (simp add: UnreadByte_def r2_def)
  have el: "eatLine (UnreadByte r2) = (r2, None)"
    unfolding ur by (subst eatLine_newline [where rest = rest]) (simp_all add: r2_def)
  have sw: "switch (CHR ''e'') (c\<lparr>br := r\<rparr>) ev =
      Break (c\<lparr>br := UnreadByte r2\<rparr>) (ev\<lparr>Event := fieldValue v\<rparr>)"
    by (simp add: switch_def caseEvent_def rf rs TrimSuffix_line)
  have "c\<lparr>br := r2\<rparr> = nextLine c rest"
    by (simp add: nextLine_def r2_def r1_def r_def)
  then show ?thesis
    by (simp add: receiveLoop.simps [of c] rb sw el)
qed


lemma receiveLoop_id_line:
  assumes "pending (br c) = ''id:'' @ v @ LF # rest" "LF \<notin> set v"
  shows "receiveLoop c ev =
    receiveLoop (nextLine (c\<lparr>LastEventID := fieldValue v\<rparr>) rest) (ev\<lparr>ID := fieldValue v\<rparr>)"
proof -
  define r where "r = (br c)\<lparr>pending := ''d:'' @ v @ LF # rest, lastByte := Some (CHR ''i'')\<rparr>"
  define r1 where "r1 = r\<lparr>pending := fieldValue v @ LF # rest,
       lastByte := (if v \<noteq> [] \<and> hd v = CHR '' '' then Some (CHR '' '') else None)\<rparr>"
  define r2 where "r2 = r1\<lparr>pending := rest, lastByte := Some LF\<rparr>"
  have fv: "LF \<notin> set (fieldValue v)" using assms(2) fieldValue_set [of v] by auto
  have rb: "ReadByte (br c) = (r, Inr (CHR ''i''))" using assms(1) by (simp add: ReadByte_Cons r_def)
  have rf: "readFieldName ''d'' r = (r1, Inr True)"
    unfolding r1_def by (rule readFieldName_field) (simp_all add: r_def)
  have rs: "ReadString r1 LF = (r2, Inr (fieldValue v @ [LF]))"
    unfolding r2_def using fv by (intro ReadString_line) (simp_all add: r1_def)
  have ur: "UnreadByte r2 = r2\<lparr>pending := LF # rest, lastByte := None\<rparr>"
    by (simp add: UnreadByte_def r2_def)
  have el: "eatLine (UnreadByte r2) = (r2, None)"
    unfolding ur by (subst eatLine_newline [where rest = rest]) (simp_all add: r2_def)
  have sw: "switch (CHR ''i'') (c\<lparr>br := r\<rparr>) ev =
      Break (c\<lparr>br := UnreadByte r2, LastEventID := fieldValue v\<rparr>) (ev\<lparr>ID := fieldValue v\<rparr>)"
    by (simp add: switch_def caseID_def rf rs TrimSuffix_line Let_def)
  have "c\<lparr>LastEventID := fieldValue v, br := r2\<rparr> = nextLine (c\<lparr>LastEventID := fieldValue v\<rparr>) rest"
    by (simp add: nextLine_def r2_def r1_def r_def)
  then show ?thesis
    by (simp add: receiveLoop.simps [of c] rb sw el)
qed

lemma receiveLoop_retry_line:
  assumes "pending (br c) = ''retry:'' @ v @ LF # rest" "LF \<notin> set v"
  shows "receiveLoop c ev =
    receiveLoop (nextLine c rest)
      (case ParseInt (fieldValue v) of
         None \<Rightarrow> ev
       | Some retry64 \<Rightarrow> ev\<lparr>Retry := word_of_int retry64\<rparr>)"
proof -
  define r where "r = (br c)\<lparr>pending := ''etry:'' @ v @ LF # rest, lastByte := Some (CHR ''r'')\<rparr>"
  define r1 where "r1 = r\<lparr>pending := fieldValue v @ LF # rest,
       lastByte := (if v \<noteq> [] \<and> hd v = CHR '' '' then Some (CHR '' '') else None)\<rparr>"
  define r2 where "r2 = r1\<lparr>pending := rest, lastByte := Some LF\<rparr>"
  have fv: "LF \<notin> set (fieldValue v)" using assms(2) fieldValue_set [of v] by auto
  have rb: "ReadByte (br c) = (r, Inr (CHR ''r''))" using assms(1) by (simp add: ReadByte_Cons r_def)
  have rf: "readFieldName ''etry'' r = (r1, Inr True)"
    unfolding r1_def by (rule readFieldName_field) (simp_all add: r_def)
  have rs: "ReadString r1 LF = (r2, Inr (fieldValue v @ [LF]))"
    unfolding r2_def using fv by (intro ReadString_line) (simp_all add: r1_def)
  have ur: "UnreadByte r2 = r2\<lparr>pending := LF # rest, lastByte := None\<rparr>"
    by (simp add: UnreadByte_def r2_def)
  have el: "eatLine (UnreadByte r2) = (r2, None)"
    unfolding ur by (subst eatLine_newline [where rest = rest]) (simp_all add: r2_def)
  have sw: "switch (CHR ''r'') (c\<lparr>br := r\<rparr>) ev =
      Break (c\<lparr>br := UnreadByte r2\<rparr>)
        (case ParseInt (fieldValue v) of
           None \<Rightarrow> ev
         | Some retry64 \<Rightarrow> ev\<lparr>Retry := word_of_int retry64\<rparr>)"
    by (simp add: switch_def caseRetry_def rf rs TrimSuffix_line split: option.splits)
  have "c\<lparr>br := r2\<rparr> = nextLine c rest"
    by (simp add: nextLine_def r2_def r1_def r_def)
  then show ?thesis
    by (simp add: receiveLoop.simps [of c] rb sw el)
qed

lemma receiveLoop_data_line:
  assumes "pending (br c) = ''data:'' @ v @ LF # rest" "LF \<notin> set v"
    and "len (Data ev) + 2 * length (fieldValue v) < MaxEventDataSize"
  shows "receiveLoop c ev =
    receiveLoop (nextLine c rest)
      (ev\<lparr>Data := append_slice (Data ev) (dropCR (fieldValue v) @ [LF])\<rparr>)"
proof -
  define r where "r = (br c)\<lparr>pending := ''ata:'' @ v @ LF # rest, lastByte := Some (CHR ''d'')\<rparr>"
  define r1 where "r1 = r\<lparr>pending := fieldValue v @ LF # rest,
       lastByte := (if v \<noteq> [] \<and> hd v = CHR '' '' then Some (CHR '' '') else None)\<rparr>"
  define r2 where "r2 = r1\<lparr>pending := rest, lastByte := Some LF\<rparr>"
  have fv: "LF \<notin> set (fieldValue v)" using assms(2) fieldValue_set [of v] by auto
  have rb: "ReadByte (br c) = (r, Inr (CHR ''d''))" using assms(1) by (simp add: ReadByte_Cons r_def)
  have rf: "readFieldName ''ata'' r = (r1, Inr True)"
    unfolding r1_def by (rule readFieldName_field) (simp_all add: r_def)
  have rd: "readDataLine r1 (Data ev) = (r2, append_slice (Data ev) (dropCR (fieldValue v)), None)"
    unfolding r2_def using fv assms(3) by (intro readDataLine_line) (simp_all add: r1_def)
  have ur: "UnreadByte r2 = r2\<lparr>pending := LF # rest, lastByte := None\<rparr>"
    by (simp add: UnreadByte_def r2_def)
  have el: "eatLine (UnreadByte r2) = (r2, None)"
    unfolding ur by (subst eatLine_newline [where rest = rest]) (simp_all add: r2_def)
  have sw: "switch (CHR ''d'') (c\<lparr>br := r\<rparr>) ev =
      Break (c\<lparr>br := UnreadByte r2\<rparr>)
        (ev\<lparr>Data := append_slice (Data ev) (dropCR (fieldValue v) @ [LF])\<rparr>)"
    by (simp add: switch_def caseData_def rf rd append_slice_append)
  have "c\<lparr>br := r2\<rparr> = nextLine c rest"
    by (simp add: nextLine_def r2_def r1_def r_def)
  then show ?thesis
    by (simp add: receiveLoop.simps [of c] rb sw el)
qed

section \<open>Claims settled by running the code\<close>

text \<open>
  C3 (the code departs from the claim). The claim: whatever branch classifies a line, only
  the rest of that line is discarded, also when a field name is cut short by the newline;
  no later line is skipped. In \<^verbatim>\<open>readFieldName\<close> the test \<^verbatim>\<open>b != dataLeft[i]\<close> comes before
  the test \<^verbatim>\<open>b == '\n'\<close>, so a newline that arrives inside a field name is consumed and never
  pushed back, and the line eater then discards the whole next line. The stream
  \<^verbatim>\<open>"e\ndata: x\n\n"\<close> yields no event at all, while \<^verbatim>\<open>"x\ndata: x\n\n"\<close>, whose first line
  is unknown rather than cut short, yields the event with data \<^verbatim>\<open>"x"\<close>.
\<close>

theorem C3_unfinished_field_name_swallows_the_next_line:
  "consume (NewClientConn (NewReader (''e'' @ [LF] @ ''data: x'' @ [LF, LF]))) None [] =
     ([], Some EOF)
   \<and> consume (NewClientConn (NewReader (''x'' @ [LF] @ ''data: x'' @ [LF, LF]))) None [] =
       ([\<lparr>Event = [], Data = Some ''x'', ID = [], Retry = 0\<rparr>], Some EOF)"
  by (simp add: reader_defs decoder_defs)

text \<open>
  C5 (the code departs from the claim). The claim: for a payload that ends in a newline,
  \<^verbatim>\<open>Send\<close> writes the last, empty segment as a line \<^verbatim>\<open>data:\<close> and decoding gives the trailing
  newline back. For the payload \<^verbatim>\<open>"\n"\<close> the loop \<^verbatim>\<open>for len(data) > 0\<close> writes nothing for the
  empty segment before the newline: \<^verbatim>\<open>Send\<close> writes \<^verbatim>\<open>"data:\n\n"\<close>, which decodes to an event
  with empty data, and the newline is lost.
\<close>

theorem C5_lone_newline_is_not_reproduced:
  "Send \<lparr>Event = [], Data = Some [LF], ID = [], Retry = 0\<rparr> NewRecorder =
     (\<lparr>Body = ''data:'' @ [LF, LF], Flushed = True, writesLeft = None\<rparr>, None)
   \<and> consume (NewClientConn (NewReader (''data:'' @ [LF, LF]))) None [] =
       ([\<lparr>Event = [], Data = Some [], ID = [], Retry = 0\<rparr>], Some EOF)"
  by (simp add: writer_defs reader_defs decoder_defs)

text \<open>
  The scenario that C5 names does hold: \<^verbatim>\<open>{data: "ends in newline\n"}\<close> is written as
  \<^verbatim>\<open>"data: ends in newline\ndata:\n\n"\<close>, and these bytes decode to the same data.
\<close>

lemma trailing_newline_scenario:
  "Send \<lparr>Event = [], Data = Some (''ends in newline'' @ [LF]), ID = [], Retry = 0\<rparr> NewRecorder =
     (\<lparr>Body = ''data: ends in newline'' @ [LF] @ ''data:'' @ [LF, LF], Flushed = True,
        writesLeft = None\<rparr>, None)
   \<and> consume (NewClientConn (NewReader (''data: ends in newline'' @ [LF] @ ''data:'' @ [LF, LF])))
         None [] =
       ([\<lparr>Event = [], Data = Some (''ends in newline'' @ [LF]), ID = [], Retry = 0\<rparr>], Some EOF)"
  by (simp add: writer_defs reader_defs decoder_defs)

text \<open>
  C10. \<^verbatim>\<open>Send\<close> on the record whose only field that is not at its default is a data payload
  that is present but empty (the record is not the zero record) writes no \<^verbatim>\<open>data:\<close> line,
  only the blank line that ends a message: the bytes are a lone \<^verbatim>\<open>"\n"\<close>. A decoder that
  reads them returns no record and reports the end of the stream.
\<close>

theorem C10_empty_data_is_sent_as_a_blank_line:
  "Send \<lparr>Event = [], Data = Some [], ID = [], Retry = 0\<rparr> NewRecorder =
     (\<lparr>Body = [LF], Flushed = True, writesLeft = None\<rparr>, None)
   \<and> \<not> IsZero \<lparr>Event = [], Data = Some [], ID = [], Retry = 0\<rparr>
   \<and> consume (NewClientConn (NewReader [LF])) None [] = ([], Some EOF)"
  by (simp add: writer_defs reader_defs decoder_defs)

section \<open>Claims about single lines and field groups\<close>

lemmas parse_defs = ParseInt_def ParseUint_def digitVal_def fieldValue_def dropCR_def

text \<open>
  C6. When the decoder is at the start of a line and the next three bytes are the byte order
  mark \<^verbatim>\<open>EF BB BF\<close>, it drops them and goes on with what follows as if at the start of a
  line, with the event under construction and the connection's \<^verbatim>\<open>LastEventID\<close> unchanged;
  this holds at every line start, not only at the start of the stream.
\<close>

theorem C6_byte_order_mark_is_discarded:
  assumes "pending (br c) = CHR 0xEF # CHR 0xBB # CHR 0xBF # rest"
  shows "receiveLoop c event =
    receiveLoop (c\<lparr>br := (br c)\<lparr>pending := rest, lastByte := Some (CHR 0xBF)\<rparr>\<rparr>) event"
  using assms by (rule receiveLoop_bom)

text \<open>
  The scenario of C6: the stream that is the byte order mark followed by
  \<^verbatim>\<open>"data: stuff\n\n"\<close> decodes to exactly one record, with data \<^verbatim>\<open>"stuff"\<close>.
\<close>

theorem C6_byte_order_mark_scenario:
  "consume (NewClientConn (NewReader ([CHR 0xEF, CHR 0xBB, CHR 0xBF] @ ''data: stuff'' @ [LF, LF])))
     None [] =
   ([\<lparr>Event = [], Data = Some ''stuff'', ID = [], Retry = 0\<rparr>], Some EOF)"
proof -
  define c0 where "c0 = NewClientConn (NewReader ([CHR 0xEF, CHR 0xBB, CHR 0xBF] @ ''data: stuff'' @ [LF, LF]))"
  define ev0 where "ev0 = \<lparr>Event = [], Data = None, ID = [], Retry = 0\<rparr>"
  define c1 where "c1 = c0\<lparr>br := (br c0)\<lparr>pending := ''data: stuff'' @ [LF, LF], lastByte := Some (CHR 0xBF)\<rparr>\<rparr>"
  have "receiveLoop c0 ev0 = receiveLoop c1 ev0"
    unfolding c1_def
    by (rule C6_byte_order_mark_is_discarded) (simp add: c0_def reader_defs)
  moreover have "receiveLoop c1 ev0 =
    (nextLine c0 [], \<lparr>Event = [], Data = Some ''stuff'', ID = [], Retry = 0\<rparr>, None)"
    by (simp add: c1_def c0_def ev0_def nextLine_def reader_defs decoder_defs)
  ultimately have 1: "Receive c0 None =
    (nextLine c0 [], \<lparr>Event = [], Data = Some ''stuff'', ID = [], Retry = 0\<rparr>, None)"
    by (simp add: Receive_def ev0_def)
  have 2: "Receive (nextLine c0 []) (Some ''stuff'') =
    (nextLine c0 [], \<lparr>Event = [], Data = Some [], ID = [], Retry = 0\<rparr>, Some EOF)"
    by (simp add: Receive_def receiveLoop_eof c0_def reader_defs)
  show ?thesis
    unfolding c0_def [symmetric]
    by (simp add: consume.simps [of c0] consume.simps [of "nextLine c0 []"] 1 2)
qed

text \<open>
  C9. A blank line met while no data has been accumulated changes nothing in the event under
  construction: the loop goes on with the same event, so the event type, id and retry value
  parsed in a group without data are still there when a later group of the same call is
  dispatched.
\<close>

theorem C9_fields_of_a_group_without_data_persist:
  assumes "pending (br c) = LF # rest" "len (Data event) = 0"
  shows "receiveLoop c event = receiveLoop (nextLine c rest) event"
  using assms by (rule receiveLoop_blank_no_data)

text \<open>
  For example, in the stream \<^verbatim>\<open>"event: a\nid: 1\nretry: 5\n\ndata: x\n\n"\<close> the first group
  has no data and the second has only data; the one record that \<^verbatim>\<open>Receive\<close> returns carries
  the event type, id and retry value of the first group.
\<close>

theorem C9_fields_leak_into_the_next_record:
  "Receive (NewClientConn (NewReader
      (''event: a'' @ [LF] @ ''id: 1'' @ [LF] @ ''retry: 5'' @ [LF] @ [LF] @ ''data: x'' @ [LF, LF])))
     None =
   (nextLine (NewClientConn (NewReader [])\<lparr>LastEventID := ''1''\<rparr>) [],
    \<lparr>Event = ''a'', Data = Some ''x'', ID = ''1'', Retry = 5\<rparr>, None)"
proof -
  define r4 where "r4 = ''data: x'' @ [LF, LF]"
  define r3 where "r3 = LF # r4"
  define r2 where "r2 = ''retry: 5'' @ LF # r3"
  define r1 where "r1 = ''id: 1'' @ LF # r2"
  define c0 where "c0 = NewClientConn (NewReader (''event: a'' @ LF # r1))"
  define c2 where "c2 = c0\<lparr>LastEventID := ''1''\<rparr>"
  define ev0 where "ev0 = \<lparr>Event = [], Data = None, ID = [], Retry = 0\<rparr>"
  define ev3 where "ev3 = \<lparr>Event = ''a'', Data = None, ID = ''1'', Retry = 5\<rparr>"
  have "receiveLoop c0 ev0 = receiveLoop (nextLine c0 r1) (ev0\<lparr>Event := ''a''\<rparr>)"
    using receiveLoop_event_line [of c0 "'' a''" r1 ev0]
    by (simp add: c0_def reader_defs fieldValue_def)
  also have "\<dots> = receiveLoop (nextLine c2 r2) (ev0\<lparr>Event := ''a'', ID := ''1''\<rparr>)"
    using receiveLoop_id_line [of "nextLine c0 r1" "'' 1''" r2 "ev0\<lparr>Event := ''a''\<rparr>"]
    by (simp add: r1_def fieldValue_def c2_def nextLine_def)
  also have "\<dots> = receiveLoop (nextLine c2 r3) ev3"
    using receiveLoop_retry_line [of "nextLine c2 r2" "'' 5''" r3 "ev0\<lparr>Event := ''a'', ID := ''1''\<rparr>"]
    by (simp add: r2_def parse_defs ev0_def ev3_def)
  also have "\<dots> = receiveLoop (nextLine c2 r4) ev3"
    using C9_fields_of_a_group_without_data_persist [of "nextLine c2 r3" r4 ev3]
    by (simp add: r3_def ev3_def len_def)
  also have "\<dots> = (nextLine c2 [], ev3\<lparr>Data := Some ''x''\<rparr>, None)"
    by (simp add: r4_def ev3_def c2_def c0_def nextLine_def reader_defs decoder_defs)
  finally show ?thesis
    by (simp add: Receive_def c0_def c2_def ev0_def ev3_def r1_def r2_def r3_def r4_def
        nextLine_def reader_defs)
qed

text \<open>
  C8. When the decoder is at the start of a line \<^verbatim>\<open>id:\<close>, the rest of the line (less the one
  space that may follow the colon) becomes the id of the event under construction and the
  connection's \<^verbatim>\<open>LastEventID\<close>, whatever the event holds so far. In particular, on the
  stream that is one such line and a blank line, a group without data, \<^verbatim>\<open>Receive\<close> returns no
  record (it reports the end of the stream), and \<^verbatim>\<open>LastEventID\<close> is set all the same.
\<close>

theorem C8_id_line_sets_LastEventID:
  assumes "LF \<notin> set v"
  shows "(pending (br c) = ''id:'' @ v @ LF # rest \<longrightarrow>
            receiveLoop c event =
            receiveLoop (nextLine (c\<lparr>LastEventID := fieldValue v\<rparr>) rest)
              (event\<lparr>ID := fieldValue v\<rparr>))
    \<and> LastEventID (fst (Receive (NewClientConn (NewReaderSize (''id:'' @ v @ [LF, LF]) sz)) buf))
        = fieldValue v
    \<and> snd (snd (Receive (NewClientConn (NewReaderSize (''id:'' @ v @ [LF, LF]) sz)) buf))
        = Some EOF"
proof -
  define c0 where "c0 = NewClientConn (NewReaderSize (''id:'' @ v @ [LF, LF]) sz)"
  define ev0 where "ev0 = \<lparr>Event = [], Data = (case buf of None \<Rightarrow> None | Some b \<Rightarrow> Some []),
    ID = [], Retry = 0\<rparr>"
  define c1 where "c1 = c0\<lparr>LastEventID := fieldValue v\<rparr>"
  have nodata: "len (Data (ev0\<lparr>ID := fieldValue v\<rparr>)) = 0"
    by (simp add: ev0_def len_def split: option.splits)
  have "receiveLoop c0 ev0 = receiveLoop (nextLine c1 [LF]) (ev0\<lparr>ID := fieldValue v\<rparr>)"
    unfolding c1_def using assms
    by (intro receiveLoop_id_line) (simp_all add: c0_def NewClientConn_def NewReaderSize_def)
  also have "\<dots> = receiveLoop (nextLine c1 []) (ev0\<lparr>ID := fieldValue v\<rparr>)"
    using receiveLoop_blank_no_data [of "nextLine c1 [LF]" "[]", OF _ nodata] by simp
  also have "\<dots> = (nextLine c1 [], ev0\<lparr>ID := fieldValue v\<rparr>, Some EOF)"
    by (simp add: receiveLoop_eof c1_def c0_def NewClientConn_def NewReaderSize_def)
  finally have "Receive c0 buf = (nextLine c1 [], ev0\<lparr>ID := fieldValue v\<rparr>, Some EOF)"
    by (simp add: Receive_def ev0_def)
  then have "LastEventID (fst (Receive c0 buf)) = fieldValue v"
    and "snd (snd (Receive c0 buf)) = Some EOF"
    by (simp_all add: c1_def)
  then show ?thesis
    using assms unfolding c0_def by (simp add: receiveLoop_id_line)
qed

theorem C8_id_of_a_group_without_data:
  "LastEventID (fst (Receive (NewClientConn (NewReader (''id: 7'' @ [LF, LF]))) None)) = ''7''
   \<and> snd (snd (Receive (NewClientConn (NewReader (''id: 7'' @ [LF, LF]))) None)) = Some EOF"
  using C8_id_line_sets_LastEventID [of "'' 7''" _ _ _ defaultBufSize None]
  by (simp add: NewReader_def fieldValue_def)

section \<open>Keepalives\<close>

lemma Send_zero:
  assumes "writesLeft w = None"
  shows "Send \<lparr>Event = [], Data = None, ID = [], Retry = 0\<rparr> w =
    (w\<lparr>Body := Body w @ '':'' @ [LF, LF], Flushed := True\<rparr>, None)"
  using assms by (simp add: Send_def sendBody_def IsZero_def Fprintf_def flush_def)

lemma sendAll_zero:
  assumes "writesLeft w = None"
  shows "sendAll (replicate n \<lparr>Event = [], Data = None, ID = [], Retry = 0\<rparr>) w =
    (if n = 0 then w
     else w\<lparr>Body := Body w @ concat (replicate n ('':'' @ [LF, LF])), Flushed := True\<rparr>, None)"
  using assms
proof (induction n arbitrary: w)
  case 0
  then show ?case by simp
next
  case (Suc n)
  define w' where "w' = w\<lparr>Body := Body w @ '':'' @ [LF, LF], Flushed := True\<rparr>"
  have "writesLeft w' = None" using Suc.prems by (simp add: w'_def)
  from Suc.IH [OF this] Suc.prems show ?case
    by (simp add: Send_zero w'_def)
qed

lemma receiveLoop_keepalives:
  assumes "pending (br c) = concat (replicate n ('':'' @ [LF, LF])) @ rest" "len (Data ev) = 0"
  shows "receiveLoop c ev = receiveLoop (if n = 0 then c else nextLine c rest) ev"
  using assms
proof (induction n arbitrary: c)
  case 0
  then show ?case by simp
next
  case (Suc n)
  define rest' where "rest' = concat (replicate n ('':'' @ [LF, LF])) @ rest"
  have p: "pending (br c) = CHR '':'' # [] @ LF # LF # rest'"
    using Suc.prems(1) by (simp add: rest'_def)
  have "receiveLoop c ev = receiveLoop (nextLine c (LF # rest')) ev"
    using p by (rule receiveLoop_other_line) simp_all
  also have "\<dots> = receiveLoop (nextLine c rest') ev"
    using receiveLoop_blank_no_data [of "nextLine c (LF # rest')" rest' ev] Suc.prems(2) by simp
  also have "\<dots> = receiveLoop (if n = 0 then nextLine c rest' else nextLine (nextLine c rest') rest) ev"
    using Suc.prems(2) by (intro Suc.IH) (simp_all add: rest'_def)
  also have "(if n = 0 then nextLine c rest' else nextLine (nextLine c rest') rest) = nextLine c rest"
    by (simp add: rest'_def)
  finally show ?case by simp
qed

text \<open>
  C7. \<^verbatim>\<open>Send\<close> on the zero record writes exactly \<^verbatim>\<open>":\n\n"\<close>, a comment line with nothing
  after the colon and the blank line. For every \<open>n\<close>, a decoder that reads what \<open>n\<close> calls
  of \<^verbatim>\<open>Send\<close> on the zero record have written receives no record at all: its first
  \<^verbatim>\<open>Receive\<close> reports the end of the stream.
\<close>

theorem C7_keepalives_decode_to_nothing:
  "Send \<lparr>Event = [], Data = None, ID = [], Retry = 0\<rparr> NewRecorder =
     (\<lparr>Body = '':'' @ [LF, LF], Flushed = True, writesLeft = None\<rparr>, None)
   \<and> consume
        (NewClientConn (NewReaderSize
          (Body (fst (sendAll (replicate n \<lparr>Event = [], Data = None, ID = [], Retry = 0\<rparr>) NewRecorder)))
          sz))
        buf [] = ([], Some EOF)"
proof -
  define stream where "stream = concat (replicate n ('':'' @ [LF, LF]))"
  define c0 where "c0 = NewClientConn (NewReaderSize stream sz)"
  define ev0 where "ev0 = \<lparr>Event = [], Data = (case buf of None \<Rightarrow> None | Some b \<Rightarrow> Some []),
    ID = [], Retry = 0\<rparr>"
  have body: "Body (fst (sendAll (replicate n \<lparr>Event = [], Data = None, ID = [], Retry = 0\<rparr>) NewRecorder))
    = stream"
    by (simp add: sendAll_zero NewRecorder_def stream_def)
  have nodata: "len (Data ev0) = 0" by (simp add: ev0_def len_def split: option.splits)
  have "receiveLoop c0 ev0 = receiveLoop (if n = 0 then c0 else nextLine c0 []) ev0"
    using nodata
    by (intro receiveLoop_keepalives) (simp_all add: c0_def stream_def NewClientConn_def NewReaderSize_def)
  moreover have "pending (br (if n = 0 then c0 else nextLine c0 [])) = []"
    by (simp add: c0_def stream_def NewClientConn_def NewReaderSize_def)
  moreover have "srcErr (br (if n = 0 then c0 else nextLine c0 [])) = EOF"
    by (simp add: c0_def NewClientConn_def NewReaderSize_def)
  ultimately have "receiveLoop c0 ev0 = (if n = 0 then c0 else nextLine c0 [], ev0, Some EOF)"
    by (simp add: receiveLoop_eof)
  then have "Receive c0 buf = (if n = 0 then c0 else nextLine c0 [], ev0, Some EOF)"
    by (simp add: Receive_def ev0_def)
  then have "consume c0 buf [] = ([], Some EOF)"
    by (simp add: consume.simps [of c0])
  then show ?thesis
    unfolding body c0_def by (simp add: Send_zero NewRecorder_def)
qed

section \<open>Field groups, line by line\<close>

text \<open>
  The wire format is a sequence of lines, each ended by a line feed. \<open>encodeLines\<close> puts
  lines on the wire. A line of a field group is taken to be well formed when it is not
  blank, holds no line feed, and either starts with one of the four field names and a colon,
  or starts with a byte that opens neither a field name nor a byte order mark (a comment
  starts with a colon, an unknown field with some other letter).
\<close>

definition encodeLines :: "string list \<Rightarrow> byte list" where
  "encodeLines ls = concat (map (\<lambda>l. l @ [LF]) ls)"

definition isDataLine :: "string \<Rightarrow> bool" where
  "isDataLine l \<longleftrightarrow> take 5 l = ''data:''"

definition opensNoField :: "string \<Rightarrow> bool" where
  "opensNoField l \<longleftrightarrow>
     l \<noteq> [] \<and> hd l \<noteq> CHR ''e'' \<and> hd l \<noteq> CHR ''d'' \<and> hd l \<noteq> CHR ''i'' \<and> hd l \<noteq> CHR ''r''
       \<and> hd l \<noteq> CHR 0xEF"

definition wellFormedLine :: "string \<Rightarrow> bool" where
  "wellFormedLine l \<longleftrightarrow>
     list_all (\<lambda>b. b \<noteq> LF) l \<and>
     (take 5 l = ''data:'' \<or> take 6 l = ''event:'' \<or> take 3 l = ''id:'' \<or> take 6 l = ''retry:''
        \<or> opensNoField l)"

text \<open>
  What one well-formed line does to the event under construction and to the connection's
  \<^verbatim>\<open>LastEventID\<close>, read off the format: this is the description the decoder is compared
  with below, not a translation of its code.
\<close>

definition applyLine :: "Event \<Rightarrow> string \<Rightarrow> Event" where
  "applyLine ev l =
     (if take 5 l = ''data:''
      then ev\<lparr>Data := append_slice (Data ev) (dropCR (fieldValue (drop 5 l)) @ [LF])\<rparr>
      else if take 6 l = ''event:'' then ev\<lparr>Event := fieldValue (drop 6 l)\<rparr>
      else if take 3 l = ''id:'' then ev\<lparr>ID := fieldValue (drop 3 l)\<rparr>
      else if take 6 l = ''retry:''
      then (case ParseInt (fieldValue (drop 6 l)) of
              None \<Rightarrow> ev
            | Some retry64 \<Rightarrow> ev\<lparr>Retry := word_of_int retry64\<rparr>)
      else ev)"

definition applyLineID :: "string \<Rightarrow> string \<Rightarrow> string" where
  "applyLineID lastID l = (if take 3 l = ''id:'' then fieldValue (drop 3 l) else lastID)"

text \<open>
  What a line counts towards the size limit: a data line counts the bytes of its value and
  one more for the line feed that joins it to the next, any other line nothing.
\<close>

definition dataCost :: "string \<Rightarrow> nat" where
  "dataCost l = (if take 5 l = ''data:'' then length (fieldValue (drop 5 l)) + 1 else 0)"

lemma take_eq_prefix: "take n l = p \<Longrightarrow> l = p @ drop n l"
  by (metis append_take_drop_id)

lemma receiveLoop_line:
  assumes p: "pending (br c) = l @ LF # rest"
    and wf: "wellFormedLine l"
    and small: "len (Data ev) + 2 * dataCost l < MaxEventDataSize"
  shows "receiveLoop c ev =
    receiveLoop (nextLine (c\<lparr>LastEventID := applyLineID (LastEventID c) l\<rparr>) rest) (applyLine ev l)"
proof -
  have nolf: "LF \<notin> set l" using wf by (auto simp: wellFormedLine_def list_all_iff)
  have nolf': "LF \<notin> set (drop n l)" for n using nolf by (auto dest: in_set_dropD)
  have same: "c\<lparr>LastEventID := LastEventID c\<rparr> = c" by simp
  consider (data) "take 5 l = ''data:''" | (event) "take 6 l = ''event:''" | (id) "take 3 l = ''id:''"
    | (retry) "take 6 l = ''retry:''" | (other) "opensNoField l"
    using wf by (auto simp: wellFormedLine_def)
  then show ?thesis
  proof cases
    case data
    then have l: "l = ''data:'' @ drop 5 l" by (rule take_eq_prefix)
    have "take 3 l \<noteq> ''id:''" by (subst l) simp
    moreover have "pending (br c) = ''data:'' @ drop 5 l @ LF # rest" using p l by (metis append.assoc)
    moreover have "len (Data ev) + 2 * length (fieldValue (drop 5 l)) < MaxEventDataSize"
      using small data by (simp add: dataCost_def)
    ultimately show ?thesis
      using receiveLoop_data_line [of c "drop 5 l" rest ev] nolf' data
      by (simp add: applyLine_def applyLineID_def same)
  next
    case event
    then have l: "l = ''event:'' @ drop 6 l" by (rule take_eq_prefix)
    have "take 3 l \<noteq> ''id:''" "take 5 l \<noteq> ''data:''" by (subst l, simp)+
    moreover have "pending (br c) = ''event:'' @ drop 6 l @ LF # rest" using p l by (metis append.assoc)
    ultimately show ?thesis
      using receiveLoop_event_line [of c "drop 6 l" rest ev] nolf' event
      by (simp add: applyLine_def applyLineID_def same)
  next
    case id
    then have l: "l = ''id:'' @ drop 3 l" by (rule take_eq_prefix)
    have "take 6 l \<noteq> ''event:''" "take 5 l \<noteq> ''data:''" by (subst l, simp)+
    moreover have "pending (br c) = ''id:'' @ drop 3 l @ LF # rest" using p l by (metis append.assoc)
    ultimately show ?thesis
      using receiveLoop_id_line [of c "drop 3 l" rest ev] nolf' id
      by (simp add: applyLine_def applyLineID_def)
  next
    case retry
    then have l: "l = ''retry:'' @ drop 6 l" by (rule take_eq_prefix)
    have "take 6 l \<noteq> ''event:''" "take 5 l \<noteq> ''data:''" "take 3 l \<noteq> ''id:''" by (subst l, simp)+
    moreover have "pending (br c) = ''retry:'' @ drop 6 l @ LF # rest" using p l by (metis append.assoc)
    ultimately show ?thesis
      using receiveLoop_retry_line [of c "drop 6 l" rest ev] nolf' retry
      by (simp add: applyLine_def applyLineID_def same)
  next
    case other
    then obtain b l' where l: "l = b # l'" by (cases l) (auto simp: opensNoField_def)
    with other have b: "b \<noteq> CHR ''e''" "b \<noteq> CHR ''d''" "b \<noteq> CHR ''i''" "b \<noteq> CHR ''r''" "b \<noteq> CHR 0xEF"
      by (simp_all add: opensNoField_def)
    have "b \<noteq> LF" "LF \<notin> set l'" using nolf l by auto
    then have "receiveLoop c ev = receiveLoop (nextLine c rest) ev"
      using receiveLoop_other_line [of c b l' rest ev] p l b by simp
    moreover have "applyLine ev l = ev" "applyLineID (LastEventID c) l = LastEventID c"
      using b l by (auto simp: applyLine_def applyLineID_def)
    ultimately show ?thesis by (simp add: same)
  qed
qed


lemma fieldValue_length: "length (fieldValue v) \<le> length v"
  by (simp add: fieldValue_def)

lemma len_applyLine: "len (Data (applyLine ev l)) \<le> len (Data ev) + dataCost l"
  using dropCR_length [of "fieldValue (drop 5 l)"]
  by (simp add: applyLine_def dataCost_def len_append_slice split: option.splits)

lemma dataCost_le: "dataCost l \<le> length l"
proof (cases "take 5 l = ''data:''")
  case True
  then have "l = ''data:'' @ drop 5 l" by (rule take_eq_prefix)
  then have "length l = length (''data:'' @ drop 5 l)" by (rule arg_cong)
  then have "length l = 5 + length (drop 5 l)" by (simp only: length_append) simp
  then show ?thesis using True fieldValue_length [of "drop 5 l"] by (simp add: dataCost_def)
next
  case False
  then show ?thesis by (simp add: dataCost_def)
qed

lemma sum_dataCost_le: "sum_list (map dataCost ls) \<le> length (concat ls)"
  by (induction ls) (simp_all add: add_mono dataCost_le)

lemma applyLine_data:
  assumes "isDataLine l"
  shows "len (Data (applyLine ev l)) \<noteq> 0" "last (bytes (Data (applyLine ev l))) = LF"
  using assms
  by (auto simp: isDataLine_def applyLine_def append_slice_def len_def bytes_def split: option.splits)

lemma applyLine_no_data: "\<not> isDataLine l \<Longrightarrow> Data (applyLine ev l) = Data ev"
  by (simp add: isDataLine_def applyLine_def split: option.splits)

text \<open>Data under construction is empty or ends in the line feed that the last data line added.\<close>

definition dataWellEnded :: "Event \<Rightarrow> bool" where
  "dataWellEnded ev \<longleftrightarrow> len (Data ev) = 0 \<or> last (bytes (Data ev)) = LF"

lemma dataWellEnded_applyLine: "dataWellEnded ev \<Longrightarrow> dataWellEnded (applyLine ev l)"
  using applyLine_data [of l ev] applyLine_no_data [of l ev]
  by (cases "isDataLine l") (auto simp: dataWellEnded_def)

lemma dataWellEnded_foldl: "dataWellEnded ev \<Longrightarrow> dataWellEnded (foldl applyLine ev ls)"
  by (induction ls arbitrary: ev) (simp_all add: dataWellEnded_applyLine)

lemma len_applyLine_mono: "len (Data ev) \<noteq> 0 \<Longrightarrow> len (Data (applyLine ev l)) \<noteq> 0"
  using applyLine_data [of l ev] applyLine_no_data [of l ev]
  by (cases "isDataLine l") auto

lemma len_foldl_mono: "len (Data ev) \<noteq> 0 \<Longrightarrow> len (Data (foldl applyLine ev ls)) \<noteq> 0"
proof (induction ls arbitrary: ev)
  case Nil
  then show ?case by simp
next
  case (Cons l ls)
  from Cons.prems have "len (Data (applyLine ev l)) \<noteq> 0" by (rule len_applyLine_mono)
  then have "len (Data (foldl applyLine (applyLine ev l) ls)) \<noteq> 0" by (rule Cons.IH)
  then show ?case by simp
qed

lemma group_has_data_iff:
  "len (Data (foldl applyLine ev ls)) \<noteq> 0 \<longleftrightarrow> len (Data ev) \<noteq> 0 \<or> list_ex isDataLine ls"
proof (induction ls arbitrary: ev)
  case Nil
  show ?case by simp
next
  case (Cons l ls)
  show ?case
  proof (cases "isDataLine l")
    case True
    then show ?thesis using applyLine_data(1) [of l ev] by (simp add: len_foldl_mono)
  next
    case False
    then show ?thesis using Cons.IH [of "applyLine ev l"] by (simp add: applyLine_no_data)
  qed
qed

lemma receiveLoop_group:
  assumes "pending (br c) = encodeLines ls @ LF # rest"
    and "list_all wellFormedLine ls"
    and "len (Data ev) + 2 * sum_list (map dataCost ls) < MaxEventDataSize"
  shows "receiveLoop c ev =
    (let ev' = foldl applyLine ev ls;
         c' = nextLine (c\<lparr>LastEventID := foldl applyLineID (LastEventID c) ls\<rparr>) rest
     in if len (Data ev') = 0 then receiveLoop c' ev'
        else (c', if last (bytes (Data ev')) = LF
                  then ev'\<lparr>Data := Some (butlast (bytes (Data ev')))\<rparr> else ev', None))"
  using assms
proof (induction ls arbitrary: c ev)
  case Nil
  have "c\<lparr>LastEventID := LastEventID c\<rparr> = c" by simp
  with Nil show ?case
    using receiveLoop_blank_no_data [of c rest ev] receiveLoop_blank_data [of c rest ev]
    by (simp add: encodeLines_def Let_def)
next
  case (Cons l ls)
  define rest1 where "rest1 = encodeLines ls @ LF # rest"
  define c1 where "c1 = nextLine (c\<lparr>LastEventID := applyLineID (LastEventID c) l\<rparr>) rest1"
  have p: "pending (br c) = l @ LF # rest1"
    using Cons.prems(1) by (simp add: encodeLines_def rest1_def)
  have 1: "receiveLoop c ev = receiveLoop c1 (applyLine ev l)"
    unfolding c1_def using p Cons.prems(2,3) by (intro receiveLoop_line) simp_all
  have small: "len (Data (applyLine ev l)) + 2 * sum_list (map dataCost ls) < MaxEventDataSize"
    using len_applyLine [of ev l] Cons.prems(3) by simp
  have c': "nextLine (c1\<lparr>LastEventID := foldl applyLineID (LastEventID c1) ls\<rparr>) rest =
      nextLine (c\<lparr>LastEventID := foldl applyLineID (LastEventID c) (l # ls)\<rparr>) rest"
    by (simp add: c1_def nextLine_def)
  have "pending (br c1) = encodeLines ls @ LF # rest" by (simp add: c1_def rest1_def)
  from Cons.IH [OF this _ small] Cons.prems(2) show ?case
    unfolding 1 c' by simp
qed

text \<open>
  Take a field group on the wire: well-formed lines, each ended by a line feed, then the
  blank line, then the rest of the stream; the lines are small enough for the size limit
  not to be reached. \<^verbatim>\<open>Receive\<close>, called at the start of the group, returns a record at the
  blank line if and only if one of the lines is a data line. If one is, it returns there,
  with the fields that the lines set and the data lines joined by line feeds, and the rest
  of the stream is still to be read. If none is, the blank line changes nothing: no record
  is returned for the group, the accumulated data is still empty, and \<^verbatim>\<open>Receive\<close> goes on
  with the rest of the stream as its loop does from there. This is what the decoder does on
  groups of well-formed lines only; a line that cuts a field name short is not one of them,
  and the section after this one shows what it does to the blank line.
\<close>

lemma well_formed_group_dispatched_iff_data_line:
  assumes "pending (br c) = encodeLines ls @ LF # rest"
    and "list_all wellFormedLine ls"
    and "2 * length (concat ls) < MaxEventDataSize"
  shows "Receive c buf =
    (let ev = foldl applyLine
               \<lparr>Event = [], Data = (case buf of None \<Rightarrow> None | Some b \<Rightarrow> Some []), ID = [], Retry = 0\<rparr> ls;
         c' = nextLine (c\<lparr>LastEventID := foldl applyLineID (LastEventID c) ls\<rparr>) rest
     in if list_ex isDataLine ls
        then (c', ev\<lparr>Data := Some (butlast (bytes (Data ev)))\<rparr>, None)
        else receiveLoop c' ev)
    \<and> (len (Data (foldl applyLine
               \<lparr>Event = [], Data = (case buf of None \<Rightarrow> None | Some b \<Rightarrow> Some []), ID = [], Retry = 0\<rparr> ls)) = 0
         \<longleftrightarrow> \<not> list_ex isDataLine ls)"
proof -
  define ev0 where "ev0 = \<lparr>Event = [], Data = (case buf of None \<Rightarrow> None | Some b \<Rightarrow> Some []),
    ID = [], Retry = 0\<rparr>"
  have empty: "len (Data ev0) = 0" by (simp add: ev0_def len_def split: option.splits)
  then have "dataWellEnded ev0" by (simp add: dataWellEnded_def)
  then have ended: "dataWellEnded (foldl applyLine ev0 ls)" by (rule dataWellEnded_foldl)
  have iff: "len (Data (foldl applyLine ev0 ls)) = 0 \<longleftrightarrow> \<not> list_ex isDataLine ls"
    using group_has_data_iff [of ev0 ls] empty by auto
  have "len (Data ev0) + 2 * sum_list (map dataCost ls) < MaxEventDataSize"
    using assms(3) empty sum_dataCost_le [of ls] by simp
  from receiveLoop_group [OF assms(1,2) this] iff ended show ?thesis
    unfolding Receive_def ev0_def [symmetric]
    by (auto simp: Let_def dataWellEnded_def)
qed

lemma groups_with_and_without_data:
  "Receive (NewClientConn (NewReader (encodeLines ['':keepalive'', ''event: a'', ''data: x'', ''data: y''] @ [LF])))
     None =
     (nextLine (NewClientConn (NewReader [])) [],
      \<lparr>Event = ''a'', Data = Some (''x'' @ [LF] @ ''y''), ID = [], Retry = 0\<rparr>, None)
   \<and> Receive (NewClientConn (NewReader (encodeLines ['':keepalive'', ''event: a''] @ [LF]))) None =
     (nextLine (NewClientConn (NewReader [])) [],
      \<lparr>Event = ''a'', Data = None, ID = [], Retry = 0\<rparr>, Some EOF)"
proof -
  have 1: "Receive (NewClientConn (NewReader (encodeLines ['':keepalive'', ''event: a'', ''data: x'', ''data: y''] @ [LF])))
     None =
     (nextLine (NewClientConn (NewReader [])) [],
      \<lparr>Event = ''a'', Data = Some (''x'' @ [LF] @ ''y''), ID = [], Retry = 0\<rparr>, None)"
    using well_formed_group_dispatched_iff_data_line
      [of "NewClientConn (NewReader (encodeLines ['':keepalive'', ''event: a'', ''data: x'', ''data: y''] @ [LF]))"
          "['':keepalive'', ''event: a'', ''data: x'', ''data: y'']" "[]" None]
    by (simp add: reader_defs wellFormedLine_def opensNoField_def isDataLine_def applyLine_def
        applyLineID_def parse_defs MaxEventDataSize_def append_slice_def bytes_def nextLine_def
        encodeLines_def)
  have 2: "Receive (NewClientConn (NewReader (encodeLines ['':keepalive'', ''event: a''] @ [LF]))) None =
     (nextLine (NewClientConn (NewReader [])) [],
      \<lparr>Event = ''a'', Data = None, ID = [], Retry = 0\<rparr>, Some EOF)"
    using well_formed_group_dispatched_iff_data_line
      [of "NewClientConn (NewReader (encodeLines ['':keepalive'', ''event: a''] @ [LF]))"
          "['':keepalive'', ''event: a'']" "[]" None]
    by (simp add: reader_defs wellFormedLine_def opensNoField_def isDataLine_def applyLine_def
        applyLineID_def parse_defs MaxEventDataSize_def append_slice_def bytes_def nextLine_def
        encodeLines_def receiveLoop_eof)
  from 1 2 show ?thesis by (rule conjI)
qed

section \<open>A blank line after a field name that is cut short\<close>

text \<open>
  C4 (the code departs from the claim). The claim: \<^verbatim>\<open>Receive\<close> returns a record at a blank
  line if and only if at least one data line was accumulated for the field group that the
  blank line ends. The decoder aims at this: at a line start, a line feed returns the event
  when its data is not empty and is passed over otherwise (lemmas \<open>receiveLoop_blank_data\<close>
  and \<open>receiveLoop_blank_no_data\<close>), and every other case is meant to leave the reader at
  the start of the next line. \<^verbatim>\<open>readFieldName\<close> breaks that: a line feed that arrives inside
  a field name is consumed and not pushed back, so the line eater that follows discards the
  line after it, and when that line is the blank line, the group is never ended. On
  \<^verbatim>\<open>"data: x\ne\n\n"\<close> the data line is accumulated, the blank line is swallowed, and
  \<^verbatim>\<open>Receive\<close> returns the end of the stream as its error: no record is received. On
  \<^verbatim>\<open>"data: x\nda\n\ndata: y\n\n"\<close> the first blank line is swallowed and the two groups come
  out as one record.
\<close>

theorem C4_blank_line_after_cut_short_field_name_dispatches_nothing:
  "Receive (NewClientConn (NewReader (''data: x'' @ [LF] @ ''e'' @ [LF, LF]))) None
     = (\<lparr>LastEventID = [],
         br = \<lparr>pending = [], srcErr = EOF, lastByte = Some LF, bufSize = defaultBufSize\<rparr>\<rparr>,
        \<lparr>Event = [], Data = Some (''x'' @ [LF]), ID = [], Retry = 0\<rparr>, Some EOF)
   \<and> consume (NewClientConn (NewReader (''data: x'' @ [LF] @ ''e'' @ [LF, LF]))) None []
     = ([], Some EOF)
   \<and> consume (NewClientConn
        (NewReader (''data: x'' @ [LF] @ ''da'' @ [LF, LF] @ ''data: y'' @ [LF, LF]))) None []
     = ([\<lparr>Event = [], Data = Some (''x'' @ [LF] @ ''y''), ID = [], Retry = 0\<rparr>], Some EOF)"
  by (simp add: reader_defs decoder_defs)

section \<open>Decimal numbers are read back as written\<close>











section \<open>What the encoder writes, line by line\<close>

text \<open>
  The payload segments that the loop of \<^verbatim>\<open>Send\<close> writes one data line for: the loop
  cuts the payload at every line feed.
\<close>

function segments :: "byte list \<Rightarrow> byte list list" where
  "segments data =
     (if data = [] then []
      else case IndexByte data LF of
             None \<Rightarrow> [data]
           | Some i \<Rightarrow> take i data # segments (drop (i + 1) data))"
  by pat_completeness auto
termination
  by (relation "measure length") auto

declare segments.simps [simp del]

lemma segments_Nil [simp]: "segments [] = []"
  by (simp add: segments.simps [of "[]"])

lemma writeDataLines_Nil [simp]: "writeDataLines [] w = (w, None)"
  by (simp add: writeDataLines.simps [of "[]"])



lemma encodeLines_Nil [simp]: "encodeLines [] = []"
  by (simp add: encodeLines_def)








section \<open>The lines of a record, and the record read back from them\<close>

text \<open>
  The payload that the loop of \<^verbatim>\<open>Send\<close> runs over: the data without the one line feed
  that \<^verbatim>\<open>endsInNewline\<close> accounts for.
\<close>

definition endsInNewline :: "Event \<Rightarrow> bool" where
  "endsInNewline e \<longleftrightarrow> length (bytes (Data e)) > 0 \<and> last (bytes (Data e)) = LF"










lemma append_slice_Nil [simp]: "append_slice d [] = d"
  by (simp add: append_slice_def split: option.splits)



















section \<open>Sending a record and receiving it\<close>


text \<open>
  Two more things are not read back, by the format: a line feed inside the event type or
  the id ends the line, and the decoder takes a carriage return at the end of a data line
  for part of the line ending.
\<close>

lemma line_feed_in_a_name_and_carriage_return_at_a_line_end_are_not_read_back:
  "snd (Receive (NewClientConn (NewReader (Body (fst
        (Send \<lparr>Event = [], Data = Some ''x'', ID = ''a'' @ [LF] @ ''b'', Retry = 0\<rparr> NewRecorder))))) None)
     = (\<lparr>Event = [], Data = Some ''x'', ID = ''a'', Retry = 0\<rparr>, None)
   \<and> snd (Receive (NewClientConn (NewReader (Body (fst
        (Send \<lparr>Event = [], Data = Some (''x'' @ [CR]), ID = [], Retry = 0\<rparr> NewRecorder))))) None)
     = (\<lparr>Event = [], Data = Some ''x'', ID = [], Retry = 0\<rparr>, None)"
  by (simp add: writer_defs reader_defs decoder_defs)



section \<open>The size limit\<close>






















end
